theory Spec2Isabelle
  imports Complex_Main "HOL-Library.Multiset"
begin

section \<open>The CPOG proof checker (cpog-check.c)\<close>

text \<open>
  A shallow embedding of the checker in \<^verbatim>\<open>src/cpog/checker/cpog-check.c\<close>.
  C \<^verbatim>\<open>int\<close> values are modelled as \<^typ>\<open>int\<close>; the one place where the code relies on
  wrap-around (the generation counter of the literal set) writes the wrap out.
  \<^verbatim>\<open>err_printf\<close> prints a message and calls \<^verbatim>\<open>exit(1)\<close>: every call is a value
  \<open>Inl e\<close> of the result type \<open>error + 'a\<close>.  A read or write through a NULL pointer or
  outside an allocated table is undefined behaviour in C and is the error \<open>MemoryFault\<close>.
\<close>

subsection \<open>Macro parameters\<close>

definition MIN_SIZE :: int where "MIN_SIZE = 10"
definition MAX_GAP :: int where "MAX_GAP = 10"
definition CHUNK_SIZE :: int where "CHUNK_SIZE = 2 ^ 20"
definition CHUNK_MAX :: int where "CHUNK_MAX = 2 ^ 37 div (2 ^ 20 * 4)"
definition INT_MAX :: int where "INT_MAX = 2147483647"
definition RUP_CONFLICT :: int where "RUP_CONFLICT = INT_MAX"
definition RUP_STALL :: int where "RUP_STALL = 0"

text \<open>\<^verbatim>\<open>IABS(x)\<close> is \<^verbatim>\<open>((x)<0?(-x):(x))\<close>.\<close>

definition IABS :: "int \<Rightarrow> int" where
  "IABS x = (if x < 0 then - x else x)"

text \<open>
  \<^verbatim>\<open>(size_t) (n * GROW_RATIO)\<close> with \<^verbatim>\<open>GROW_RATIO\<close> 1.45: the truncated product.  Every
  caller takes the maximum of this and the size it needs, and no property below
  depends on the exact value.
\<close>

definition grow_size :: "nat \<Rightarrow> nat" where
  "grow_size n = (n * 145) div 100"

text \<open>A 32-bit signed increment that wraps, as \<^verbatim>\<open>lset_generation++\<close> is meant to.\<close>

definition wrap32 :: "int \<Rightarrow> int" where
  "wrap32 x = (x + 2 ^ 31) mod 2 ^ 32 - 2 ^ 31"

subsection \<open>Errors, tokens, options\<close>

datatype error =
    ParseError
  | ExplicitHintsRequired
  | DuplicateClauseId
  | UnknownClauseId
  | AlreadyDeleted
  | NotInputClause
  | WrongDeleteType
  | VariableOutOfRange
  | DependencyViolation
  | NotDataVariable
  | InvalidNodeId
  | NodeIdInUse
  | ClauseTooLong
  | TooManyChunks
  | RupFailure
  | NonPropagatingHint
  | ConflictBeforeTermination
  | IncompatibleHintType
  | ImplicitDeletionFailed int
  | InvalidNodeType
  | MemoryFault

text \<open>
  The tokenizer is an external collaborator: the input is the sequence of tokens it
  yields.  \<^verbatim>\<open>token_value\<close> is the argument of \<open>TOK_INT\<close>.  At the end of the file
  \<^verbatim>\<open>token_next\<close> returns \<open>TOK_EOF\<close> again and again.
\<close>

datatype token =
    TOK_INT int | TOK_STRING string | TOK_STAR | TOK_EOF | TOK_EOL | TOK_NONE | TOK_UNKNOWN

fun token_next :: "token list \<Rightarrow> token \<times> token list" where
  "token_next [] = (TOK_EOF, [])"
| "token_next (t # ts) = (t, ts)"

definition token_confirm_eol :: "token list \<Rightarrow> error + token list" where
  "token_confirm_eol ts =
     (case token_next ts of (TOK_EOL, ts') \<Rightarrow> Inr ts' | _ \<Rightarrow> Inl ParseError)"

text \<open>\<^verbatim>\<open>token_find_eol\<close> drops the rest of the line, the newline included.\<close>

fun token_find_eol :: "token list \<Rightarrow> token list" where
  "token_find_eol [] = []"
| "token_find_eol (TOK_EOL # ts) = ts"
| "token_find_eol (TOK_EOF # ts) = TOK_EOF # ts"
| "token_find_eol (t # ts) = token_find_eol ts"

text \<open>The option globals, set once by \<^verbatim>\<open>main\<close> and read-only afterwards.\<close>

record options =
  check_add :: bool
  check_delete :: bool
  weak_mode :: bool
  use_explicit_deletion :: bool
  repeated_literal_ok :: bool
  early_rup :: bool
  skipping_rup :: bool

text \<open>The values the globals are initialised with (no command-line flag given).\<close>

definition default_options :: options where
  "default_options = \<lparr> check_add = True, check_delete = True, weak_mode = False,
     use_explicit_deletion = False, repeated_literal_ok = False, early_rup = True,
     skipping_rup = False \<rparr>"

subsection \<open>Integer lists\<close>

text \<open>
  An \<^verbatim>\<open>ilist\<close> is a growable sequence of ints: an \<^typ>\<open>int list\<close>.  The loops over
  positions become recursion over the lists.
\<close>

fun ilist_find_duplicate :: "int list \<Rightarrow> int option" where
  "ilist_find_duplicate (x # y # ys) =
     (if x = y then Some y else ilist_find_duplicate (y # ys))"
| "ilist_find_duplicate _ = None"

fun dedup_from :: "int \<Rightarrow> int list \<Rightarrow> int list" where
  "dedup_from last_val [] = []"
| "dedup_from last_val (v # vs) =
     (if v \<noteq> last_val then v # dedup_from v vs else dedup_from last_val vs)"

fun ilist_deduplicate :: "int list \<Rightarrow> int list" where
  "ilist_deduplicate [] = []"
| "ilist_deduplicate (x # xs) = x # dedup_from x xs"

text \<open>\<open>None\<close> is the result \<^verbatim>\<open>true\<close>; \<open>Some v\<close> is \<^verbatim>\<open>false\<close> with \<^verbatim>\<open>*dup_val = v\<close>.\<close>

fun ilist_is_disjoint :: "int list \<Rightarrow> int list \<Rightarrow> int option" where
  "ilist_is_disjoint [] ys = None"
| "ilist_is_disjoint (x # xs) [] = None"
| "ilist_is_disjoint (x # xs) (y # ys) =
     (if x = y then Some x
      else if x < y then ilist_is_disjoint xs (y # ys)
      else ilist_is_disjoint (x # xs) ys)"

fun ilist_union :: "int list \<Rightarrow> int list \<Rightarrow> int list" where
  "ilist_union [] ys = ys"
| "ilist_union (x # xs) [] = x # xs"
| "ilist_union (x # xs) (y # ys) =
     (if x < y then x # ilist_union xs (y # ys)
      else if y < x then y # ilist_union (x # xs) ys
      else x # ilist_union xs ys)"

text \<open>\<^verbatim>\<open>ilist_sort\<close> is \<^verbatim>\<open>qsort\<close> with the ascending comparison.\<close>

definition ilist_sort :: "int list \<Rightarrow> int list" where
  "ilist_sort ils = sort ils"

subsection \<open>The literal set\<close>

text \<open>
  An array indexed by variable with a generation counter: entry \<open>+generation\<close> is the
  positive literal, \<open>-generation\<close> the negative one, anything else neither.
  \<^verbatim>\<open>lset_asize\<close> is the length of the array.
\<close>

record lset =
  lset_generation :: int
  lset_array :: "int list"

definition lset_asize :: "lset \<Rightarrow> int" where
  "lset_asize s = int (length (lset_array s))"

text \<open>The initial values of the globals.\<close>

definition lset_empty :: lset where
  "lset_empty = \<lparr> lset_generation = 0, lset_array = [] \<rparr>"

definition lset_init :: "int \<Rightarrow> lset" where
  "lset_init var =
     \<lparr> lset_generation = 1,
       lset_array = replicate (nat (if var > MIN_SIZE then var else MIN_SIZE)) 0 \<rparr>"

definition lset_clear :: "lset \<Rightarrow> lset" where
  "lset_clear s =
     (let g = wrap32 (lset_generation s + 1) in
      if g < 0
      then \<lparr> lset_generation = 1, lset_array = replicate (length (lset_array s)) 0 \<rparr>
      else s \<lparr> lset_generation := g \<rparr>)"

definition lset_check_size :: "int \<Rightarrow> lset \<Rightarrow> lset" where
  "lset_check_size var s =
     (if var \<le> lset_asize s then s
      else if lset_asize s = 0 then lset_init var
      else
        let nasize0 = int (grow_size (length (lset_array s)));
            nasize = (if nasize0 < var then var else nasize0)
        in s \<lparr> lset_array := lset_array s @ replicate (nat nasize - length (lset_array s)) 0 \<rparr>)"

definition lset_get_lit :: "int \<Rightarrow> lset \<Rightarrow> int" where
  "lset_get_lit var s =
     (if var \<le> 0 \<or> var > lset_asize s then 0
      else
        let g = lset_array s ! nat (var - 1) in
        if g = lset_generation s then var
        else if g = - lset_generation s then - var
        else 0)"

text \<open>
  \<^verbatim>\<open>lset_add_lit\<close> returns \<^verbatim>\<open>false\<close> when the opposite literal is present.  For the
  argument 0 the C code writes \<^verbatim>\<open>lset_array[-1]\<close>.
\<close>

definition lset_add_lit :: "int \<Rightarrow> lset \<Rightarrow> error + (bool \<times> lset)" where
  "lset_add_lit lit s =
     (let var = IABS lit;
          s1 = lset_check_size var s;
          olit = lset_get_lit var s1
      in if olit \<noteq> 0 \<and> olit \<noteq> lit then Inr (False, s1)
         else if var - 1 < 0 \<or> var - 1 \<ge> lset_asize s1 then Inl MemoryFault
         else
           let val = (if lit > 0 then lset_generation s1 else - lset_generation s1)
           in Inr (True, s1 \<lparr> lset_array := (lset_array s1) [nat (var - 1) := val] \<rparr>))"

subsection \<open>Clause types\<close>

datatype clause_type =
    CLAUSE_INPUT | CLAUSE_TSEITIN | CLAUSE_DISABLE | CLAUSE_SKOLEM | CLAUSE_STRUCTURAL
  | CLAUSE_ROOT | CLAUSE_FORWARD | CLAUSE_UNKNOWN | CLAUSE_INVALID

subsection \<open>The clause store\<close>

text \<open>
  A block holds consecutive clause ids from \<open>start_id\<close>.  The C struct keeps three
  parallel ilists \<^verbatim>\<open>chunk\<close>, \<^verbatim>\<open>offset\<close>, \<^verbatim>\<open>type\<close> and their common length
  \<^verbatim>\<open>length\<close>, always pushed together; here one list of slots, each the triple for one
  position, and the length is the length of that list.
\<close>

record slot =
  chunk :: int
  offset :: int
  type_of :: clause_type

record clause_block =
  start_id :: int
  slots :: "slot list"

definition length_blk :: "clause_block \<Rightarrow> int" where
  "length_blk b = int (length (slots b))"

text \<open>
  The store.  A chunk is a \<^verbatim>\<open>calloc\<close>ed array of \<open>CHUNK_SIZE\<close> ints filled from the
  front: the model keeps the filled prefix, and a read past it is the 0 of
  \<^verbatim>\<open>calloc\<close>.  \<^verbatim>\<open>chunk_count\<close> and \<^verbatim>\<open>clause_block_count\<close> are the lengths of the two
  lists.  The three counts read by the store are part of the record.
\<close>

record cstore =
  chunk_set :: "int list list"
  chunk_used :: int
  clause_count :: int
  clause_last_id :: int
  current_clause :: "int list"
  clause_blocks :: "clause_block list"
  input_clause_count :: int
  input_variable_count :: int
  variable_limit :: int

definition clause_block_count :: "cstore \<Rightarrow> int" where
  "clause_block_count cs = int (length (clause_blocks cs))"

definition chunk_count :: "cstore \<Rightarrow> int" where
  "chunk_count cs = int (length (chunk_set cs))"

text \<open>\<^verbatim>\<open>clause_init\<close>, with the counts read from the CNF header.\<close>

definition clause_init :: "int \<Rightarrow> int \<Rightarrow> cstore" where
  "clause_init nvar nclause =
     \<lparr> chunk_set = [[]], chunk_used = 0, clause_count = 0, clause_last_id = 0,
       current_clause = [],
       clause_blocks = [\<lparr> start_id = 1, slots = [] \<rparr>],
       input_clause_count = nclause, input_variable_count = nvar,
       variable_limit = nvar \<rparr>"

record clause_location =
  bid :: int
  pos :: int

text \<open>The binary search over blocks of \<^verbatim>\<open>find_clause\<close>: the loop on \<open>lid\<close>, \<open>rid\<close>.\<close>

function find_loop :: "clause_block list \<Rightarrow> int \<Rightarrow> int \<Rightarrow> int \<Rightarrow> clause_location option" where
  "find_loop blocks cid lid rid =
     (if lid \<le> rid \<and> 0 \<le> lid \<and> rid < int (length blocks) then
        let b = (lid + rid) div 2;
            p = cid - start_id (blocks ! nat b)
        in if p < 0 then find_loop blocks cid lid (b - 1)
           else if p \<ge> length_blk (blocks ! nat b) then find_loop blocks cid (b + 1) rid
           else Some \<lparr> bid = b, pos = p \<rparr>
      else None)"
  by pat_completeness auto
termination
  by (relation "measure (\<lambda>(blocks, cid, lid, rid). nat (rid - lid + 1))") auto

definition find_clause :: "cstore \<Rightarrow> int \<Rightarrow> clause_location option" where
  "find_clause cs cid = find_loop (clause_blocks cs) cid 0 (clause_block_count cs - 1)"

definition generate_clause_id :: "cstore \<Rightarrow> clause_location \<Rightarrow> int" where
  "generate_clause_id cs loc = start_id (clause_blocks cs ! nat (bid loc)) + pos loc"

text \<open>
  The slot a location names; \<open>None\<close> when the location is outside the tables
  (\<^verbatim>\<open>find_clause\<close> never returns such a location).
\<close>

definition slot_at :: "cstore \<Rightarrow> clause_location \<Rightarrow> slot option" where
  "slot_at cs loc =
     (if 0 \<le> bid loc \<and> bid loc < clause_block_count cs
         \<and> 0 \<le> pos loc \<and> pos loc < length_blk (clause_blocks cs ! nat (bid loc))
      then Some (slots (clause_blocks cs ! nat (bid loc)) ! nat (pos loc))
      else None)"

text \<open>
  The zero-terminated run of literals that starts at an offset of a chunk, without
  its terminator: what a loop \<^verbatim>\<open>while ((lit = *lits++) != 0)\<close> visits.
\<close>

definition lits_from :: "cstore \<Rightarrow> int \<Rightarrow> int \<Rightarrow> int list" where
  "lits_from cs ch off = takeWhile (\<lambda>l. l \<noteq> 0) (drop (nat off) (chunk_set cs ! nat ch))"

text \<open>
  \<^verbatim>\<open>clause_locate\<close> returns the pointer to the first literal, or NULL for a hole
  (chunk or offset negative).  The model returns the literals the pointer leads to;
  \<open>None\<close> is NULL.
\<close>

definition clause_locate :: "cstore \<Rightarrow> clause_location \<Rightarrow> int list option" where
  "clause_locate cs loc =
     (case slot_at cs loc of
        None \<Rightarrow> None
      | Some sl \<Rightarrow>
          if chunk sl < 0 then None
          else if offset sl < 0 then None
          else if chunk sl \<ge> chunk_count cs then None
          else Some (lits_from cs (chunk sl) (offset sl)))"

definition clause_type :: "cstore \<Rightarrow> clause_location \<Rightarrow> clause_type" where
  "clause_type cs loc =
     (case slot_at cs loc of None \<Rightarrow> CLAUSE_INVALID | Some sl \<Rightarrow> type_of sl)"

definition set_slot_type :: "cstore \<Rightarrow> clause_location \<Rightarrow> clause_type \<Rightarrow> cstore" where
  "set_slot_type cs loc ty =
     (let b = clause_blocks cs ! nat (bid loc);
          sl = slots b ! nat (pos loc)
      in cs \<lparr> clause_blocks := (clause_blocks cs)
           [nat (bid loc) := b \<lparr> slots := (slots b) [nat (pos loc) := sl \<lparr> type_of := ty \<rparr>] \<rparr>] \<rparr>)"

text \<open>
  \<^verbatim>\<open>clause_delete\<close>: a slot with a nonnegative offset has its literals checked
  against the variable limit and its type set to \<open>CLAUSE_UNKNOWN\<close>; a slot with a
  negative offset is the error "Can't delete clause".  The function returns
  \<^verbatim>\<open>true\<close> or does not return.
\<close>

definition clause_delete :: "cstore \<Rightarrow> clause_location \<Rightarrow> error + (bool \<times> cstore)" where
  "clause_delete cs loc =
     (case slot_at cs loc of
        None \<Rightarrow> Inl MemoryFault
      | Some sl \<Rightarrow>
          if offset sl \<ge> 0 then
            if chunk sl < 0 \<or> chunk sl \<ge> chunk_count cs then Inl MemoryFault
            else if \<exists>lit \<in> set (lits_from cs (chunk sl) (offset sl)).
                      IABS lit > input_variable_count cs \<and> IABS lit > variable_limit cs
            then Inl VariableOutOfRange
            else Inr (True, set_slot_type cs loc CLAUSE_UNKNOWN)
          else Inl AlreadyDeleted)"

text \<open>
  \<^verbatim>\<open>start_clause\<close>: a new block, or \<open>CLAUSE_UNKNOWN\<close> holes with chunk and offset -1
  for the ids skipped (the loop over \<open>ncid\<close> from \<open>clause_last_id + 1\<close> up to
  \<open>cid - 1\<close>), pushed onto the last block.
\<close>

definition null_slot :: slot where
  "null_slot = \<lparr> chunk = - 1, offset = - 1, type_of = CLAUSE_UNKNOWN \<rparr>"

definition push_slots :: "cstore \<Rightarrow> slot list \<Rightarrow> cstore" where
  "push_slots cs new =
     (let n = length (clause_blocks cs) - 1;
          b = clause_blocks cs ! n
      in cs \<lparr> clause_blocks := (clause_blocks cs) [n := b \<lparr> slots := slots b @ new \<rparr>] \<rparr>)"

definition start_clause :: "cstore \<Rightarrow> int \<Rightarrow> error + cstore" where
  "start_clause cs cid =
     (if cid \<le> clause_last_id cs then Inl DuplicateClauseId
      else
        let cs1 =
          (if cid > clause_last_id cs + MAX_GAP
              \<or> clause_block_count cs = 1 \<and> cid > input_clause_count cs
           then cs \<lparr> clause_blocks := clause_blocks cs @ [\<lparr> start_id = cid, slots = [] \<rparr>] \<rparr>
           else push_slots cs (replicate (nat (cid - (clause_last_id cs + 1))) null_slot))
        in Inr (cs1 \<lparr> clause_last_id := cid, clause_count := clause_count cs1 + 1,
                      current_clause := [] \<rparr>))"

text \<open>
  \<^verbatim>\<open>finish_clause\<close> copies the working clause to the current chunk, or to a fresh
  chunk when it does not fit, and records chunk, offset and type in the last block.
\<close>

definition finish_clause :: "cstore \<Rightarrow> int \<Rightarrow> clause_type \<Rightarrow> error + cstore" where
  "finish_clause cs cid ty =
     (let need = int (length (current_clause cs)) in
      if need > CHUNK_SIZE then Inl ClauseTooLong
      else if need + chunk_used cs > CHUNK_SIZE \<and> chunk_count cs \<ge> CHUNK_MAX - 1
      then Inl TooManyChunks
      else
        let cs1 = (if need + chunk_used cs > CHUNK_SIZE
                   then cs \<lparr> chunk_set := chunk_set cs @ [[]], chunk_used := 0 \<rparr>
                   else cs);
            p = chunk_used cs1;
            last_chunk = length (chunk_set cs1) - 1;
            cs2 = cs1 \<lparr> chunk_set := (chunk_set cs1)
                       [last_chunk := take (nat p) (chunk_set cs1 ! last_chunk
                                                   @ replicate (nat p) 0)
                                      @ current_clause cs1],
                     chunk_used := p + need \<rparr>
        in Inr (push_slots cs2
                  [\<lparr> chunk = chunk_count cs2 - 1, offset = p, type_of = ty \<rparr>]))"

text \<open>\<^verbatim>\<open>clause_add_literal\<close> pushes a literal or the terminating 0.\<close>

definition clause_add_literal :: "cstore \<Rightarrow> int \<Rightarrow> error + cstore" where
  "clause_add_literal cs lit =
     (if IABS lit > input_variable_count cs \<and> IABS lit > variable_limit cs
      then Inl VariableOutOfRange
      else Inr (cs \<lparr> current_clause := current_clause cs @ [lit] \<rparr>))"

text \<open>Sequencing of steps that may fail: the first error ends the run.\<close>

definition ebind :: "error + 'a \<Rightarrow> ('a \<Rightarrow> error + 'b) \<Rightarrow> error + 'b" where
  "ebind m f = (case m of Inl e \<Rightarrow> Inl e | Inr x \<Rightarrow> f x)"

text \<open>
  The pattern \<^verbatim>\<open>start_clause(cid); clause_add_literal(...); ...;
  clause_add_literal(0); finish_clause(cid, type)\<close> that \<^verbatim>\<open>cnf_read\<close> (with type
  \<open>CLAUSE_INPUT\<close>) and the node commands use to store a clause.
\<close>

fun add_literals :: "cstore \<Rightarrow> int list \<Rightarrow> error + cstore" where
  "add_literals cs [] = Inr cs"
| "add_literals cs (lit # lits) =
     (case clause_add_literal cs lit of Inl e \<Rightarrow> Inl e | Inr cs' \<Rightarrow> add_literals cs' lits)"

definition store_clause :: "cstore \<Rightarrow> int \<Rightarrow> int list \<Rightarrow> clause_type \<Rightarrow> error + cstore" where
  "store_clause cs cid lits ty =
     ebind (start_clause cs cid) (\<lambda>cs1.
     ebind (add_literals cs1 (lits @ [0])) (\<lambda>cs2.
     finish_clause cs2 cid ty))"

subsection \<open>RUP\<close>

text \<open>
  \<^verbatim>\<open>rup_setup\<close>: clear the literal set and add the complement of each literal;
  \<^verbatim>\<open>false\<close> as soon as one cannot be added.  The argument is the literal run the
  pointer leads to (see \<open>clause_locate\<close>), so no literal is 0.
\<close>

fun rup_setup_loop :: "int list \<Rightarrow> lset \<Rightarrow> error + (bool \<times> lset)" where
  "rup_setup_loop [] s = Inr (True, s)"
| "rup_setup_loop (lit # lits) s =
     (case lset_add_lit (- lit) s of
        Inl e \<Rightarrow> Inl e
      | Inr (added, s') \<Rightarrow> if \<not> added then Inr (False, s') else rup_setup_loop lits s')"

definition rup_setup :: "int list \<Rightarrow> lset \<Rightarrow> error + (bool \<times> lset)" where
  "rup_setup lits s = rup_setup_loop lits (lset_clear s)"

text \<open>
  The loop of \<^verbatim>\<open>rup_unit_prop\<close> over the literals of the hint clause, with the
  local \<open>unit\<close>, which starts as \<open>RUP_CONFLICT\<close>.
\<close>

fun unit_prop_loop :: "lset \<Rightarrow> int \<Rightarrow> int list \<Rightarrow> int" where
  "unit_prop_loop s unit [] = unit"
| "unit_prop_loop s unit (lit # lits) =
     (if lit = unit then unit_prop_loop s unit lits
      else
        let rlit = lset_get_lit (IABS lit) s in
        if rlit = lit then RUP_STALL
        else if rlit = - lit then unit_prop_loop s unit lits
        else if unit = RUP_CONFLICT then unit_prop_loop s lit lits
        else RUP_STALL)"

definition rup_unit_prop :: "cstore \<Rightarrow> lset \<Rightarrow> clause_location \<Rightarrow> error + int" where
  "rup_unit_prop cs s loc =
     (case clause_locate cs loc of
        None \<Rightarrow> Inl MemoryFault
      | Some lits \<Rightarrow> Inr (unit_prop_loop s RUP_CONFLICT lits))"

text \<open>
  The switch of \<^verbatim>\<open>rup_run\<close> on the type of the hint clause: is this hint allowed
  for a target of this type?
\<close>

fun hint_allowed :: "clause_type \<Rightarrow> clause_type \<Rightarrow> bool" where
  "hint_allowed CLAUSE_TSEITIN target = True"
| "hint_allowed CLAUSE_FORWARD target = (target = CLAUSE_FORWARD \<or> target = CLAUSE_ROOT)"
| "hint_allowed CLAUSE_INPUT target =
     (target = CLAUSE_FORWARD \<or> target = CLAUSE_ROOT \<or> target = CLAUSE_INPUT)"
| "hint_allowed CLAUSE_SKOLEM target = (target = CLAUSE_INPUT)"
| "hint_allowed CLAUSE_ROOT target = (target = CLAUSE_INPUT)"
| "hint_allowed CLAUSE_STRUCTURAL target =
     (target = CLAUSE_FORWARD \<or> target = CLAUSE_ROOT \<or> target = CLAUSE_STRUCTURAL)"
| "hint_allowed CLAUSE_DISABLE target =
     (target = CLAUSE_FORWARD \<or> target = CLAUSE_ROOT \<or> target = CLAUSE_STRUCTURAL)"
| "hint_allowed _ target = False"

text \<open>
  The inner loop of the early-conflict branch: read tokens until an integer 0, and
  fail on a token that is not an integer.
\<close>

fun rup_discard :: "token list \<Rightarrow> error + token list" where
  "rup_discard [] = Inl ParseError"
| "rup_discard (TOK_INT v # ts) = (if v = 0 then Inr ts else rup_discard ts)"
| "rup_discard (t # ts) = Inl ParseError"

text \<open>
  The main loop of \<^verbatim>\<open>rup_run\<close> with its locals \<open>conflict\<close> and \<open>ok\<close> (the step
  counter only feeds messages).  Each round reads one token.  The result is the
  literal set and the tokens left.
\<close>

fun rup_loop ::
  "options \<Rightarrow> cstore \<Rightarrow> clause_type \<Rightarrow> bool \<Rightarrow> bool \<Rightarrow> lset \<Rightarrow> token list
     \<Rightarrow> error + (lset \<times> token list)" where
  "rup_loop opts cs target conflict ok s [] = Inl ParseError"
| "rup_loop opts cs target conflict ok s (TOK_STAR # ts) = Inl ExplicitHintsRequired"
| "rup_loop opts cs target conflict ok s (TOK_INT v # ts) =
     (if v = 0 then
        (if \<not> conflict then Inl RupFailure
         else if \<not> ok then Inl IncompatibleHintType
         else Inr (s, ts))
      else if conflict then
        (if early_rup opts then
           (case rup_discard ts of
              Inl e \<Rightarrow> Inl e
            | Inr ts' \<Rightarrow> if \<not> ok then Inl IncompatibleHintType else Inr (s, ts'))
         else Inl ConflictBeforeTermination)
      else
        (case find_clause cs v of
           None \<Rightarrow> Inl UnknownClauseId
         | Some loc \<Rightarrow>
             let ok' = (ok \<and> hint_allowed (clause_type cs loc) target) in
             (case rup_unit_prop cs s loc of
                Inl e \<Rightarrow> Inl e
              | Inr unit \<Rightarrow>
                  if unit = RUP_CONFLICT then rup_loop opts cs target True ok' s ts
                  else if unit = RUP_STALL then
                    (if skipping_rup opts then rup_loop opts cs target conflict ok' s ts
                     else Inl NonPropagatingHint)
                  else
                    (case lset_add_lit unit s of
                       Inl e \<Rightarrow> Inl e
                     | Inr (added, s') \<Rightarrow> rup_loop opts cs target conflict ok' s' ts))))"
| "rup_loop opts cs target conflict ok s (t # ts) = Inl ParseError"

definition rup_run ::
  "options \<Rightarrow> cstore \<Rightarrow> clause_type \<Rightarrow> lset \<Rightarrow> token list \<Rightarrow> error + (lset \<times> token list)" where
  "rup_run opts cs target s ts = rup_loop opts cs target False True s ts"

text \<open>\<^verbatim>\<open>rup_skip\<close> reads tokens up to an integer 0 and never fails; at the end of the
  file it reads \<open>TOK_EOF\<close> for ever, which is the value \<open>None\<close>.\<close>

fun rup_skip :: "token list \<Rightarrow> token list option" where
  "rup_skip [] = None"
| "rup_skip (TOK_INT v # ts) = (if v = 0 then Some ts else rup_skip ts)"
| "rup_skip (t # ts) = rup_skip ts"

subsection \<open>A small formula\<close>

text \<open>The store after \<^verbatim>\<open>cnf_read\<close> of \<^verbatim>\<open>p cnf 2 2 / 1 0 / 1 2 0\<close>.\<close>

definition cnf_two_units :: cstore where
  "cnf_two_units =
     \<lparr> chunk_set = [[1, 0, 1, 2, 0]], chunk_used = 5, clause_count = 2, clause_last_id = 2,
       current_clause = [1, 2, 0],
       clause_blocks = [\<lparr> start_id = 1, slots =
          [\<lparr> chunk = 0, offset = 0, type_of = CLAUSE_INPUT \<rparr>,
           \<lparr> chunk = 0, offset = 2, type_of = CLAUSE_INPUT \<rparr>] \<rparr>],
       input_clause_count = 2, input_variable_count = 2, variable_limit = 2 \<rparr>"

text \<open>
  The store after \<^verbatim>\<open>cnf_read\<close> of \<^verbatim>\<open>p cnf 1 1 / 1 0\<close> and the commands
  \<^verbatim>\<open>r 2 / 2 p 2 1 0 / 4 a 2 0 1 2 0\<close>: the input clause \<open>(1)\<close>, the defining clauses
  \<open>(2 \<or> \<not>1)\<close> and \<open>(\<not>2 \<or> 1)\<close> of the product node 2, and the root clause \<open>(2)\<close>.
\<close>

definition pog_unit_store :: cstore where
  "pog_unit_store =
     \<lparr> chunk_set = [[1, 0, 2, - 1, 0, - 2, 1, 0, 2, 0]], chunk_used = 10,
       clause_count = 4, clause_last_id = 4, current_clause = [2, 0],
       clause_blocks =
         [\<lparr> start_id = 1, slots = [\<lparr> chunk = 0, offset = 0, type_of = CLAUSE_INPUT \<rparr>] \<rparr>,
          \<lparr> start_id = 2, slots =
             [\<lparr> chunk = 0, offset = 2, type_of = CLAUSE_TSEITIN \<rparr>,
              \<lparr> chunk = 0, offset = 5, type_of = CLAUSE_TSEITIN \<rparr>,
              \<lparr> chunk = 0, offset = 8, type_of = CLAUSE_ROOT \<rparr>] \<rparr>],
       input_clause_count = 1, input_variable_count = 1, variable_limit = 11 \<rparr>"

subsection \<open>POG nodes and the checker state\<close>

datatype node_type = NODE_PRODUCT | NODE_SKOLEM | NODE_SUM | NODE_NONE

text \<open>
  Modelled from the spec: the numeric kernel \<^verbatim>\<open>q25\<close> (its source is not part of the
  checker) is an exact rational type; a value is a \<^typ>\<open>rat\<close>, and
  \<^verbatim>\<open>q25_scale(q, p2, p5)\<close> multiplies by \<open>2^p2 * 5^p5\<close>.
\<close>

definition q25_from_32 :: "int \<Rightarrow> rat" where
  "q25_from_32 x = of_int x"

definition q25_one_minus :: "rat \<Rightarrow> rat" where
  "q25_one_minus q = 1 - q"

definition q25_mul :: "rat \<Rightarrow> rat \<Rightarrow> rat" where
  "q25_mul x y = x * y"

definition q25_add :: "rat \<Rightarrow> rat \<Rightarrow> rat" where
  "q25_add x y = x + y"

definition pow_int :: "rat \<Rightarrow> int \<Rightarrow> rat" where
  "pow_int b e = (if e < 0 then 1 / b ^ nat (- e) else b ^ nat e)"

definition q25_scale :: "rat \<Rightarrow> int \<Rightarrow> int \<Rightarrow> rat" where
  "q25_scale q p2 p5 = q * pow_int 2 p2 * pow_int 5 p5"

text \<open>
  A node.  The two ilists are NULL until the node is created; NULL is the empty list
  here (no code path reads them before that).  \<open>ring_value\<close> is \<open>None\<close> for NULL.
\<close>

record node =
  node_type :: node_type
  node_id :: int
  node_cid :: int
  dependency_list :: "int list"
  children :: "int list"
  ring_value :: "rat option"

text \<open>
  The process-wide state.  \<^verbatim>\<open>node_asize\<close> is the length of \<open>node_list\<close>.  The
  counters that only feed the final report are left out.
\<close>

record checker =
  lit_set :: lset
  store :: cstore
  toks :: "token list"
  node_list :: "node list"
  node_count :: int
  declared_root :: int
  root_clause_added :: bool
  declared_unsatisfiable :: bool
  proved_unsatisfiable :: bool
  is_pkc :: bool
  show_variables :: "bool list"
  explicit_deletion_count :: int
  virtual_clause_count :: int

definition node_asize :: "checker \<Rightarrow> int" where
  "node_asize st = int (length (node_list st))"

definition node_index :: "checker \<Rightarrow> int \<Rightarrow> int" where
  "node_index st ident = ident - input_variable_count (store st) - 1"

definition node_find :: "checker \<Rightarrow> int \<Rightarrow> node option" where
  "node_find st ident =
     (let idx = node_index st ident in
      if idx < 0 \<or> idx \<ge> node_asize st then None
      else Some (node_list st ! nat idx))"

text \<open>An assignment through the pointer \<^verbatim>\<open>node_find\<close> returned.\<close>

definition node_update :: "checker \<Rightarrow> int \<Rightarrow> (node \<Rightarrow> node) \<Rightarrow> checker" where
  "node_update st ident f =
     st \<lparr> node_list := (node_list st)
            [nat (node_index st ident) := f (node_list st ! nat (node_index st ident))] \<rparr>"

definition empty_node :: "int \<Rightarrow> node" where
  "empty_node ident =
     \<lparr> node_type = NODE_NONE, node_id = ident, node_cid = 0, dependency_list = [],
       children = [], ring_value = None \<rparr>"

text \<open>The block of \<^verbatim>\<open>node_new\<close> that grows the node array to hold the new id.\<close>

definition node_grow :: "checker \<Rightarrow> int \<Rightarrow> checker" where
  "node_grow st ident =
     (let nvar = input_variable_count (store st) in
      if ident - nvar > node_asize st then
        let n0 = ident - nvar;
            n1 = (if n0 < MIN_SIZE then MIN_SIZE else n0);
            g = int (grow_size (length (node_list st)));
            nasize = (if n1 < g then g else n1)
        in st \<lparr> node_list := node_list st
                   @ map (\<lambda>idx. empty_node (int idx + nvar + 1))
                       [length (node_list st) ..< nat nasize],
                store := (store st) \<lparr> variable_limit := nasize + nvar \<rparr> \<rparr>
      else st)"

definition node_new :: "checker \<Rightarrow> node_type \<Rightarrow> int \<Rightarrow> int \<Rightarrow> error + checker" where
  "node_new st ty ident cid =
     (if ident \<le> input_variable_count (store st) then Inl InvalidNodeId
      else
        case node_find (node_grow st ident) ident of
          None \<Rightarrow> Inl MemoryFault
        | Some nd \<Rightarrow>
            if node_type nd \<noteq> NODE_NONE then Inl NodeIdInUse
            else Inr ((node_update (node_grow st ident) ident
                        (\<lambda>nd. nd \<lparr> node_type := ty, node_cid := cid, ring_value := None \<rparr>))
                      \<lparr> node_count := node_count (node_grow st ident) + 1 \<rparr>))"

text \<open>\<^verbatim>\<open>show_variables[var-1]\<close>.\<close>

definition show_variable :: "checker \<Rightarrow> int \<Rightarrow> bool option" where
  "show_variable st var =
     (if 1 \<le> var \<and> var \<le> int (length (show_variables st))
      then Some (show_variables st ! nat (var - 1)) else None)"

lemma ebind_cong [fundef_cong]:
  "m = m' \<Longrightarrow> (\<And>x. m' = Inr x \<Longrightarrow> f x = f' x) \<Longrightarrow> ebind m f = ebind m' f'"
  by (auto simp: ebind_def split: sum.splits)

subsection \<open>Commands that add and delete clauses\<close>

text \<open>The loop of \<^verbatim>\<open>cpog_add_clause\<close> that reads the literals of the clause, with the
  locals \<open>clen\<close> and \<open>last_literal\<close>; the result of \<^verbatim>\<open>lset_add_lit\<close> is ignored.\<close>

fun add_clause_literals ::
  "cstore \<Rightarrow> lset \<Rightarrow> int \<Rightarrow> int \<Rightarrow> token list
     \<Rightarrow> error + (cstore \<times> lset \<times> int \<times> int \<times> token list)" where
  "add_clause_literals cs s clen last_literal [] = Inl ParseError"
| "add_clause_literals cs s clen last_literal (t # ts) =
     (case t of
        TOK_INT lit \<Rightarrow>
          (case clause_add_literal cs lit of
             Inl e \<Rightarrow> Inl e
           | Inr cs' \<Rightarrow>
               if lit = 0 then Inr (cs', s, clen, last_literal, ts)
               else
                 (case lset_add_lit (- lit) s of
                    Inl e \<Rightarrow> Inl e
                  | Inr (added, s') \<Rightarrow> add_clause_literals cs' s' (clen + 1) lit ts))
      | _ \<Rightarrow> Inl ParseError)"

text \<open>The type \<^verbatim>\<open>cpog_add_clause\<close> gives the clause it adds.\<close>

definition added_clause_type :: "checker \<Rightarrow> bool \<Rightarrow> int \<Rightarrow> int \<Rightarrow> clause_type" where
  "added_clause_type st is_structural clen last_literal =
     (if is_structural then CLAUSE_STRUCTURAL
      else if clen = 0 then CLAUSE_FORWARD
      else if clen = 1 \<and> last_literal = declared_root st then CLAUSE_ROOT
      else CLAUSE_FORWARD)"

text \<open>
  \<^verbatim>\<open>cpog_add_clause\<close>, the commands \<^verbatim>\<open>a\<close> and \<^verbatim>\<open>as\<close>.  The outer \<open>option\<close> is
  \<open>None\<close> when \<^verbatim>\<open>rup_skip\<close> does not return.
\<close>

definition cpog_add_clause :: "options \<Rightarrow> checker \<Rightarrow> int \<Rightarrow> bool \<Rightarrow> (error + checker) option" where
  "cpog_add_clause opts st cid is_structural =
     (case start_clause (store st) cid of
        Inl e \<Rightarrow> Some (Inl e)
      | Inr cs0 \<Rightarrow>
     (case add_clause_literals cs0 (lset_clear (lit_set st)) 0 0 (toks st) of
        Inl e \<Rightarrow> Some (Inl e)
      | Inr (cs1, s1, clen, last_literal, ts1) \<Rightarrow>
          let ctype = added_clause_type st is_structural clen last_literal;
              st1 = st \<lparr> proved_unsatisfiable :=
                           (proved_unsatisfiable st \<or> \<not> is_structural \<and> clen = 0),
                         root_clause_added :=
                           (root_clause_added st \<or> ctype = CLAUSE_ROOT) \<rparr>;
              checked =
                (if \<not> check_add opts
                 then map_option (\<lambda>ts. Inr (s1, ts)) (rup_skip ts1)
                 else Some (rup_run opts cs1 ctype s1 ts1))
          in map_option (\<lambda>r.
               ebind r (\<lambda>(s2, ts2).
               ebind (token_confirm_eol ts2) (\<lambda>ts3.
               ebind (finish_clause cs1 cid ctype) (\<lambda>cs2.
               Inr (st1 \<lparr> lit_set := s2, store := cs2, toks := ts3 \<rparr>))))) checked))"

text \<open>
  \<^verbatim>\<open>cpog_delete_clause\<close>, the command \<^verbatim>\<open>d\<close>.  A NULL from \<^verbatim>\<open>clause_locate\<close> is
  dereferenced by \<^verbatim>\<open>rup_setup\<close>.
\<close>

definition cpog_delete_clause :: "options \<Rightarrow> checker \<Rightarrow> (error + checker) option" where
  "cpog_delete_clause opts st =
     (case token_next (toks st) of
        (TOK_INT cid, ts) \<Rightarrow>
          if cid > input_clause_count (store st) then Some (Inl NotInputClause)
          else
            (case find_clause (store st) cid of
               None \<Rightarrow> Some (Inl UnknownClauseId)
             | Some loc \<Rightarrow>
            (case clause_locate (store st) loc of
               None \<Rightarrow> Some (Inl MemoryFault)
             | Some clits \<Rightarrow>
            (case rup_setup clits (lit_set st) of
               Inl e \<Rightarrow> Some (Inl e)
             | Inr (consistent, s1) \<Rightarrow>
            (case clause_delete (store st) loc of
               Inl e \<Rightarrow> Some (Inl e)
             | Inr (deleted, cs1) \<Rightarrow>
                 if \<not> deleted then Some (Inl AlreadyDeleted)
                 else
                   let checked =
                     (if \<not> consistent then Some (Inr (s1, ts))
                      else if \<not> check_delete opts
                      then map_option (\<lambda>ts'. Inr (s1, ts')) (rup_skip ts)
                      else Some (rup_run opts cs1 CLAUSE_INPUT s1 ts))
                   in map_option (\<lambda>r.
                        ebind r (\<lambda>(s2, ts2).
                        Inr (st \<lparr> lit_set := s2, store := cs1, toks := token_find_eol ts2,
                                  explicit_deletion_count :=
                                    explicit_deletion_count st + 1 \<rparr>))) checked))))
      | _ \<Rightarrow> Some (Inl ParseError))"

subsection \<open>A small checker state\<close>

text \<open>
  The state after the commands \<^verbatim>\<open>r 2 / 2 p 2 1 0 / 4 a 2 0 1 2 0\<close> on the formula
  \<^verbatim>\<open>p cnf 1 1 / 1 0\<close>, and the tokens of the command line \<^verbatim>\<open>d 1 3 4 0\<close> after
  the command letter.
\<close>

definition pog_unit_state :: checker where
  "pog_unit_state =
     \<lparr> lit_set = \<lparr> lset_generation = 1, lset_array = replicate 10 0 \<rparr>,
       store = pog_unit_store,
       toks = [],
       node_list =
         \<lparr> node_type = NODE_PRODUCT, node_id = 2, node_cid = 2, dependency_list = [1],
           children = [1], ring_value = None \<rparr>
         # map (\<lambda>idx. empty_node (int idx + 2)) [1 ..< 10],
       node_count = 1, declared_root = 2, root_clause_added = True,
       declared_unsatisfiable = False, proved_unsatisfiable = False, is_pkc = False,
       show_variables = [], explicit_deletion_count = 0, virtual_clause_count = 0 \<rparr>"

definition delete_first_clause :: "token list" where
  "delete_first_clause = [TOK_INT 1, TOK_INT 3, TOK_INT 4, TOK_INT 0, TOK_EOL]"

subsection \<open>RUP derivations over a list of hints\<close>

text \<open>
  The contract of the RUP engine in the words of the specification: unit propagation
  from a literal set, using the cited clauses in the given order.  The outcome is a
  conflict after \<open>k\<close> hints, the end of the hints without a conflict, or a failure of
  the propagation itself (a hint that names no clause, a stalled hint in strict
  mode).  Tokens and clause types play no part here.
\<close>

datatype rup_outcome = Conflict nat lset | Exhausted lset | Failed error

fun bump :: "rup_outcome \<Rightarrow> rup_outcome" where
  "bump (Conflict k s) = Conflict (Suc k) s"
| "bump r = r"

fun rup_derivation :: "options \<Rightarrow> cstore \<Rightarrow> lset \<Rightarrow> int list \<Rightarrow> rup_outcome" where
  "rup_derivation opts cs s [] = Exhausted s"
| "rup_derivation opts cs s (h # hs) =
     (case find_clause cs h of
        None \<Rightarrow> Failed UnknownClauseId
      | Some loc \<Rightarrow>
          (case rup_unit_prop cs s loc of
             Inl e \<Rightarrow> Failed e
           | Inr unit \<Rightarrow>
               if unit = RUP_CONFLICT then Conflict 1 s
               else if unit = RUP_STALL then
                 (if skipping_rup opts then bump (rup_derivation opts cs s hs)
                  else Failed NonPropagatingHint)
               else
                 (case lset_add_lit unit s of
                    Inl e \<Rightarrow> Failed e
                  | Inr (added, s') \<Rightarrow> bump (rup_derivation opts cs s' hs))))"

text \<open>Is the clause a hint names of a type allowed for the target type?\<close>

definition hint_legal :: "cstore \<Rightarrow> clause_type \<Rightarrow> int \<Rightarrow> bool" where
  "hint_legal cs target h =
     (case find_clause cs h of
        None \<Rightarrow> False
      | Some loc \<Rightarrow> hint_allowed (clause_type cs loc) target)"

text \<open>The tokens of a hint list \<open>h\<^sub>1 \<dots> h\<^sub>n 0\<close>, followed by the rest of the input.\<close>

definition hint_tokens :: "int list \<Rightarrow> token list \<Rightarrow> token list" where
  "hint_tokens hs rest = map TOK_INT hs @ TOK_INT 0 # rest"

text \<open>What \<^verbatim>\<open>rup_run\<close> makes of an outcome.\<close>

definition rup_verdict ::
  "options \<Rightarrow> cstore \<Rightarrow> clause_type \<Rightarrow> bool \<Rightarrow> int list \<Rightarrow> token list \<Rightarrow> rup_outcome
     \<Rightarrow> error + (lset \<times> token list)" where
  "rup_verdict opts cs target ok hs rest r =
     (case r of
        Failed e \<Rightarrow> Inl e
      | Exhausted s' \<Rightarrow> Inl RupFailure
      | Conflict k s' \<Rightarrow>
          if k < length hs \<and> \<not> early_rup opts then Inl ConflictBeforeTermination
          else if ok \<and> list_all (hint_legal cs target) (take k hs) then Inr (s', rest)
          else Inl IncompatibleHintType)"




subsection \<open>Commands that add nodes\<close>

text \<open>The node behind the pointer \<^verbatim>\<open>node\<close> that \<^verbatim>\<open>node_new\<close> returned.\<close>

definition node_at :: "checker \<Rightarrow> int \<Rightarrow> node" where
  "node_at st ident = node_list st ! nat (node_index st ident)"

text \<open>
  The loop of \<^verbatim>\<open>cpog_add_product\<close> that reads the children, with the local
  \<open>local_dependency_list\<close>.  The node is updated in place, so a child that names the
  node itself reads the lists built so far.
\<close>

fun product_children ::
  "checker \<Rightarrow> int \<Rightarrow> int list \<Rightarrow> token list \<Rightarrow> error + (checker \<times> int list \<times> token list)" where
  "product_children st nid local [] = Inl ParseError"
| "product_children st nid local (t # ts) =
     (case t of
        TOK_INT lit \<Rightarrow>
          if lit = 0 then Inr (st, local, ts)
          else
            let var = IABS lit;
                st1 = node_update st nid (\<lambda>nd. nd \<lparr> children := children nd @ [lit] \<rparr>)
            in
              if var \<le> input_variable_count (store st) then
                (if is_pkc st then
                   (case show_variable st var of
                      None \<Rightarrow> Inl MemoryFault
                    | Some shown \<Rightarrow>
                        if \<not> shown \<and> nid \<le> declared_root st then Inl NotDataVariable
                        else product_children st1 nid (local @ [var]) ts)
                 else product_children st1 nid (local @ [var]) ts)
              else if var \<noteq> lit then Inl DependencyViolation
              else
                (case node_find st1 var of
                   None \<Rightarrow> Inl InvalidNodeId
                 | Some cnode \<Rightarrow>
                     if node_type cnode = NODE_NONE then Inl InvalidNodeId
                     else
                       (case ilist_is_disjoint (dependency_list (node_at st1 nid))
                               (dependency_list cnode) of
                          Some dvar \<Rightarrow> Inl DependencyViolation
                        | None \<Rightarrow>
                            product_children
                              (node_update st1 nid (\<lambda>nd. nd \<lparr> dependency_list :=
                                 ilist_union (dependency_list nd) (dependency_list cnode) \<rparr>))
                              nid local ts))
      | _ \<Rightarrow> Inl ParseError)"

text \<open>The block after the loop: the variables of the literal children.\<close>

definition product_local_dependencies ::
  "options \<Rightarrow> checker \<Rightarrow> int \<Rightarrow> int list \<Rightarrow> error + checker" where
  "product_local_dependencies opts st nid local =
     (if length local > 0 then
        ebind (if repeated_literal_ok opts then Inr (ilist_deduplicate (ilist_sort local))
               else (case ilist_find_duplicate (ilist_sort local) of
                       Some dvar \<Rightarrow> Inl DependencyViolation
                     | None \<Rightarrow> Inr (ilist_sort local))) (\<lambda>local'.
        case ilist_is_disjoint (dependency_list (node_at st nid)) local' of
          Some dvar \<Rightarrow> Inl DependencyViolation
        | None \<Rightarrow>
            Inr (node_update st nid (\<lambda>nd. nd \<lparr> dependency_list :=
                   ilist_union (dependency_list nd) local' \<rparr>)))
      else Inr st)"

text \<open>The loops \<^verbatim>\<open>for (i = 0; i < n; i++)\<close> that store one clause per child, with
  ids \<open>cid + i + 1\<close>.\<close>

fun store_child_clauses ::
  "cstore \<Rightarrow> int \<Rightarrow> (int \<Rightarrow> int list) \<Rightarrow> clause_type \<Rightarrow> int list \<Rightarrow> error + cstore" where
  "store_child_clauses cs cid mk ty [] = Inr cs"
| "store_child_clauses cs cid mk ty (c # rest) =
     (case store_clause cs cid (mk c) ty of
        Inl e \<Rightarrow> Inl e
      | Inr cs1 \<Rightarrow> store_child_clauses cs1 (cid + 1) mk ty rest)"

definition product_clauses :: "checker \<Rightarrow> int \<Rightarrow> int \<Rightarrow> error + checker" where
  "product_clauses st nid cid =
     (let kids = children (node_at st nid);
          is_root = (length kids = 0 \<and> nid = declared_root st);
          ctype = (if is_root then CLAUSE_ROOT else CLAUSE_TSEITIN)
      in ebind (store_clause (store st) cid (nid # map uminus kids) ctype) (\<lambda>cs1.
         ebind (store_child_clauses cs1 (cid + 1) (\<lambda>c. [- nid, c]) CLAUSE_TSEITIN kids) (\<lambda>cs2.
         Inr (st \<lparr> store := cs2,
                   root_clause_added := (root_clause_added st \<or> is_root) \<rparr>))))"

definition cpog_add_product :: "options \<Rightarrow> checker \<Rightarrow> int \<Rightarrow> error + checker" where
  "cpog_add_product opts st cid =
     (case token_next (toks st) of
        (TOK_INT nid, ts0) \<Rightarrow>
          ebind (node_new st NODE_PRODUCT nid cid) (\<lambda>st1.
          ebind (product_children
                   (node_update st1 nid (\<lambda>nd. nd \<lparr> children := [], dependency_list := [] \<rparr>))
                   nid [] ts0) (\<lambda>(st2, local, ts1).
          ebind (product_local_dependencies opts st2 nid local) (\<lambda>st3.
          ebind (token_confirm_eol ts1) (\<lambda>ts2.
          product_clauses (st3 \<lparr> toks := ts2 \<rparr>) nid cid))))
      | _ \<Rightarrow> Inl ParseError)"

text \<open>
  The loop of \<^verbatim>\<open>cpog_add_sum\<close> that reads the children: \<open>sum_child\<close> is the part
  of the loop body that handles one child.  A strict sum stops after its second
  child; a weak sum stops at a 0.
\<close>

definition sum_child ::
  "checker \<Rightarrow> int \<Rightarrow> int list \<Rightarrow> int \<Rightarrow> error + (checker \<times> int list)" where
  "sum_child st nid local lit =
     (let var = IABS lit;
          st1 = node_update st nid (\<lambda>nd. nd \<lparr> children := children nd @ [lit] \<rparr>)
      in
        if var \<le> input_variable_count (store st) then
          (if is_pkc st then
             (case show_variable st var of
                None \<Rightarrow> Inl MemoryFault
              | Some shown \<Rightarrow>
                  if \<not> shown then Inl NotDataVariable
                  else Inr (st1, local @ [var]))
           else Inr (st1, local @ [var]))
        else if var \<noteq> lit then Inl DependencyViolation
        else
          (case node_find st1 var of
             None \<Rightarrow> Inl InvalidNodeId
           | Some cnode \<Rightarrow>
               if node_type cnode = NODE_NONE then Inl InvalidNodeId
               else Inr (node_update st1 nid (\<lambda>nd. nd \<lparr> dependency_list :=
                           ilist_union (dependency_list nd) (dependency_list cnode) \<rparr>),
                         local)))"

fun sum_children ::
  "bool \<Rightarrow> checker \<Rightarrow> int \<Rightarrow> int list \<Rightarrow> token list
     \<Rightarrow> error + (checker \<times> int list \<times> token list)" where
  "sum_children weak st nid local [] = Inl ParseError"
| "sum_children weak st nid local (t # ts) =
     (case t of
        TOK_INT lit \<Rightarrow>
          if weak \<and> IABS lit = 0 then Inr (st, local, ts)
          else
            (case sum_child st nid local lit of
               Inl e \<Rightarrow> Inl e
             | Inr (st2, local2) \<Rightarrow>
                 if \<not> weak \<and> length (children (node_at st2 nid)) = 2
                 then Inr (st2, local2, ts)
                 else sum_children weak st2 nid local2 ts)
      | _ \<Rightarrow> Inl ParseError)"

text \<open>
  \<^verbatim>\<open>cpog_add_sum\<close> in three parts: the node and its children; the proof of mutual
  exclusion (strict sums only); the defining clauses.
\<close>

definition sum_parse :: "checker \<Rightarrow> int \<Rightarrow> bool \<Rightarrow> error + (checker \<times> int \<times> token list)" where
  "sum_parse st cid weak =
     (case token_next (toks st) of
        (TOK_INT nid, ts0) \<Rightarrow>
          ebind (node_new st NODE_SUM nid cid) (\<lambda>st1.
          ebind (sum_children weak
                   (node_update st1 nid (\<lambda>nd. nd \<lparr> children := [], dependency_list := [] \<rparr>))
                   nid [] ts0) (\<lambda>(st2, local, ts1).
          Inr (if length local > 0
               then node_update st2 nid (\<lambda>nd. nd \<lparr> dependency_list :=
                      ilist_union (dependency_list nd) (ilist_sort local) \<rparr>)
               else st2, nid, ts1)))
      | _ \<Rightarrow> Inl ParseError)"

definition sum_mutex ::
  "options \<Rightarrow> checker \<Rightarrow> int \<Rightarrow> token list \<Rightarrow> error + (lset \<times> token list)" where
  "sum_mutex opts st nid ts =
     ebind (lset_add_lit (children (node_at st nid) ! 0) (lset_clear (lit_set st)))
       (\<lambda>(added0, s1).
     ebind (lset_add_lit (children (node_at st nid) ! 1) s1) (\<lambda>(added1, s2).
     rup_run opts (store st) CLAUSE_STRUCTURAL s2 ts))"

definition sum_clauses :: "checker \<Rightarrow> int \<Rightarrow> int \<Rightarrow> token list \<Rightarrow> error + checker" where
  "sum_clauses st nid cid ts =
     ebind (token_confirm_eol ts) (\<lambda>ts1.
     let kids = children (node_at st nid) in
     ebind (store_clause (store st) cid (- nid # kids) CLAUSE_TSEITIN) (\<lambda>cs1.
     ebind (store_child_clauses cs1 (cid + 1) (\<lambda>c. [nid, - c]) CLAUSE_TSEITIN kids) (\<lambda>cs2.
     Inr (st \<lparr> store := cs2, toks := ts1 \<rparr>))))"

definition cpog_add_sum :: "options \<Rightarrow> checker \<Rightarrow> int \<Rightarrow> bool \<Rightarrow> error + checker" where
  "cpog_add_sum opts st cid weak =
     ebind (sum_parse st cid weak) (\<lambda>(st1, nid, ts1).
     ebind (if \<not> weak then sum_mutex opts st1 nid ts1 else Inr (lit_set st1, ts1))
       (\<lambda>(s2, ts2).
     sum_clauses (st1 \<lparr> lit_set := s2 \<rparr>) nid cid ts2))"

subsection \<open>Dependency sets\<close>



text \<open>
  The invariant of the node table that the merge-based \<^verbatim>\<open>ilist_is_disjoint\<close> and
  \<^verbatim>\<open>ilist_union\<close> rely on: every dependency list is in ascending order, and an
  unused entry has none.
\<close>

definition nodes_sorted :: "checker \<Rightarrow> bool" where
  "nodes_sorted st =
     (\<forall>nd \<in> set (node_list st).
        sorted (dependency_list nd)
        \<and> (node_type nd = NODE_NONE \<longrightarrow> dependency_list nd = []))"

text \<open>The literal children and the node children among the children of a node.\<close>

definition literal_children :: "checker \<Rightarrow> int list \<Rightarrow> int list" where
  "literal_children st kids = filter (\<lambda>c. IABS c \<le> input_variable_count (store st)) kids"

definition node_children :: "checker \<Rightarrow> int list \<Rightarrow> int list" where
  "node_children st kids = filter (\<lambda>c. \<not> IABS c \<le> input_variable_count (store st)) kids"






text \<open>
  The invariant of the literal set: the generation counter is a nonnegative
  \<^verbatim>\<open>int\<close>, and no entry is newer than it.  It holds for the initial globals and
  is kept by \<^verbatim>\<open>lset_clear\<close> and \<^verbatim>\<open>lset_add_lit\<close>.
\<close>

definition lset_wf :: "lset \<Rightarrow> bool" where
  "lset_wf s = (0 \<le> lset_generation s \<and> lset_generation s \<le> INT_MAX
                \<and> (\<forall>e \<in> set (lset_array s). \<bar>e\<bar> \<le> lset_generation s))"

text \<open>The small checker state with the command \<^verbatim>\<open>5 s 3 2 -1 3 0\<close> to read: the
  sum of node 2 (the product of literal 1) and the literal \<open>\<not>1\<close>, with the hint 3.\<close>

definition mutex_sum_state :: checker where
  "mutex_sum_state =
     pog_unit_state \<lparr> toks := [TOK_INT 3, TOK_INT 2, TOK_INT (- 1), TOK_INT 3, TOK_INT 0,
                                TOK_EOL] \<rparr>"

subsection \<open>Counting\<close>

text \<open>
  \<^verbatim>\<open>input_weights[cid-1]\<close>; \<open>None\<close> outside the array.
\<close>

definition input_weight :: "rat list \<Rightarrow> int \<Rightarrow> rat option" where
  "input_weight w v = (if 1 \<le> v \<and> v \<le> int (length w) then Some (w ! nat (v - 1)) else None)"

text \<open>
  The value \<open>cval\<close> of one child in the inner loop of \<^verbatim>\<open>ring_evaluate\<close>.  A child
  node whose \<open>ring_value\<close> is still NULL, or that is outside the node array, is a NULL
  operand of the numeric kernel: a fault.
\<close>

definition child_value :: "checker \<Rightarrow> rat list \<Rightarrow> int \<Rightarrow> error + rat" where
  "child_value st w clit =
     (let cid = IABS clit in
      ebind (if cid \<le> input_variable_count (store st)
             then (case input_weight w cid of None \<Rightarrow> Inl MemoryFault | Some x \<Rightarrow> Inr x)
             else (case node_find st cid of
                     None \<Rightarrow> Inl MemoryFault
                   | Some cnp \<Rightarrow>
                       (case ring_value cnp of None \<Rightarrow> Inl MemoryFault | Some x \<Rightarrow> Inr x)))
        (\<lambda>cval. Inr (if clit < 0 then q25_one_minus cval else cval)))"

fun eval_children :: "checker \<Rightarrow> rat list \<Rightarrow> node_type \<Rightarrow> rat \<Rightarrow> int list \<Rightarrow> error + rat" where
  "eval_children st w ty val [] = Inr val"
| "eval_children st w ty val (clit # rest) =
     (case child_value st w clit of
        Inl e \<Rightarrow> Inl e
      | Inr cval \<Rightarrow>
          eval_children st w ty
            (if ty = NODE_PRODUCT then q25_mul val cval else q25_add val cval) rest)"

text \<open>The body of the loop over node ids: the value of one node, stored in the node.\<close>

definition eval_node :: "checker \<Rightarrow> rat list \<Rightarrow> int \<Rightarrow> error + (checker \<times> rat)" where
  "eval_node st w ident =
     (case node_find st ident of
        None \<Rightarrow> Inl MemoryFault
      | Some np \<Rightarrow>
          if node_type np = NODE_NONE then Inl InvalidNodeType
          else
            ebind (if node_type np = NODE_SKOLEM then Inr (q25_from_32 1)
                   else eval_children st w (node_type np)
                          (if node_type np = NODE_SUM then q25_from_32 0 else q25_from_32 1)
                          (children np))
              (\<lambda>val. Inr (node_update st ident (\<lambda>nd. nd \<lparr> ring_value := Some val \<rparr>), val)))"

fun eval_loop ::
  "checker \<Rightarrow> rat list \<Rightarrow> rat option \<Rightarrow> int list \<Rightarrow> error + (checker \<times> rat option)" where
  "eval_loop st w val [] = Inr (st, val)"
| "eval_loop st w val (ident # idents) =
     (case eval_node st w ident of
        Inl e \<Rightarrow> Inl e
      | Inr (st', v) \<Rightarrow> eval_loop st' w (Some v) idents)"

text \<open>
  \<^verbatim>\<open>ring_evaluate\<close>.  When the loop over \<open>input_variable_count + 1 .. declared_root\<close>
  is empty, the C code copies an uninitialised pointer: a fault.  The second loop sets
  the ring values back to NULL.
\<close>

definition ring_evaluate :: "checker \<Rightarrow> rat list \<Rightarrow> error + (checker \<times> rat)" where
  "ring_evaluate st w =
     (if declared_unsatisfiable st then Inr (st, q25_from_32 0)
      else
        ebind (eval_loop st w None [input_variable_count (store st) + 1 .. declared_root st])
          (\<lambda>(st1, val).
             case val of
               None \<Rightarrow> Inl MemoryFault
             | Some v \<Rightarrow>
                 Inr (fold (\<lambda>ident s. node_update s ident (\<lambda>nd. nd \<lparr> ring_value := None \<rparr>))
                        [input_variable_count (store st) + 1 .. declared_root st] st1, v)))"

text \<open>The loop of \<^verbatim>\<open>count_regular\<close> that counts the show variables.\<close>

fun count_show :: "checker \<Rightarrow> int \<Rightarrow> int list \<Rightarrow> error + int" where
  "count_show st nvar [] = Inr nvar"
| "count_show st nvar (v # vs) =
     (case show_variable st v of
        None \<Rightarrow> Inl MemoryFault
      | Some shown \<Rightarrow> count_show st (if shown then nvar + 1 else nvar) vs)"

definition count_regular :: "checker \<Rightarrow> error + (checker \<times> rat)" where
  "count_regular st =
     ebind (if is_pkc st then count_show st 0 [1 .. input_variable_count (store st)]
            else Inr (input_variable_count (store st))) (\<lambda>nvar.
     let half = q25_scale (q25_from_32 1) (- 1) 0;
         input_weights = replicate (nat (input_variable_count (store st))) half
     in ebind (ring_evaluate st input_weights) (\<lambda>(st1, density).
        Inr (st1, q25_scale density nvar 0)))"

text \<open>
  The ring evaluation in the words of the specification, over a weight for each
  input variable: a leaf \<open>+v\<close> is \<open>w v\<close> and \<open>-v\<close> is \<open>1 - w v\<close>; a product node is the
  product of the values of its children, a sum node their sum, a Skolem node the
  constant 1.  Children are read bottom-up, so a child whose id is not below the id
  of its parent has no value (0 here).
\<close>

function spec_ring_value :: "checker \<Rightarrow> (int \<Rightarrow> rat) \<Rightarrow> int \<Rightarrow> rat" where
  "spec_ring_value st w lit =
     (let v = IABS lit;
          base =
            (if v \<le> input_variable_count (store st) then w v
             else
               (case node_find st v of
                  None \<Rightarrow> 0
                | Some nd \<Rightarrow>
                    (case node_type nd of
                       NODE_PRODUCT \<Rightarrow>
                         prod_list (map (\<lambda>c. if IABS c < v then spec_ring_value st w c else 0)
                                      (children nd))
                     | NODE_SUM \<Rightarrow>
                         sum_list (map (\<lambda>c. if IABS c < v then spec_ring_value st w c else 0)
                                     (children nd))
                     | NODE_SKOLEM \<Rightarrow> 1
                     | NODE_NONE \<Rightarrow> 0)))
      in if lit < 0 then 1 - base else base)"
  by pat_completeness auto
termination
  by (relation "measure (\<lambda>(st, w, lit). nat (IABS lit))")
    (auto simp: IABS_def split: if_splits)

declare spec_ring_value.simps [simp del]

text \<open>
  A node table that the bottom-up pass can evaluate up to the root: every id from the
  first node id to the root names a node, and each child of such a node is a literal
  of an input variable or has a smaller id than the node.
\<close>

definition evaluable :: "checker \<Rightarrow> bool" where
  "evaluable st =
     (0 \<le> input_variable_count (store st)
      \<and> input_variable_count (store st) < declared_root st
      \<and> \<not> declared_unsatisfiable st
      \<and> (\<forall>ident \<in> set [input_variable_count (store st) + 1 .. declared_root st].
            case node_find st ident of
              None \<Rightarrow> False
            | Some nd \<Rightarrow>
                node_type nd \<noteq> NODE_NONE
                \<and> (\<forall>c \<in> set (children nd). c \<noteq> 0 \<and> IABS c < ident)))"

text \<open>The number of data variables: all input variables, or the show variables when
  the formula is projected.\<close>

definition data_variable_count :: "checker \<Rightarrow> nat" where
  "data_variable_count st =
     (if is_pkc st
      then length (filter (\<lambda>v. show_variable st v = Some True)
                     [1 .. input_variable_count (store st)])
      else nat (input_variable_count (store st)))"

text \<open>
  Two checker states hold the same POG when they agree on the clause store, the root and
  on the type and children of every node; \<open>ring_evaluate\<close> changes only the field
  \<open>ring_value\<close>. \<open>computed st0 wt st k\<close>: in \<open>st\<close> every node with an id
  below \<open>k\<close> holds its ring value.
\<close>

definition same_pog :: "checker \<Rightarrow> checker \<Rightarrow> bool" where
  "same_pog st0 st =
     (store st = store st0 \<and> declared_root st = declared_root st0
      \<and> length (node_list st) = length (node_list st0)
      \<and> (\<forall>i < length (node_list st0).
            node_type (node_list st ! i) = node_type (node_list st0 ! i)
            \<and> children (node_list st ! i) = children (node_list st0 ! i)))"

definition computed :: "checker \<Rightarrow> (int \<Rightarrow> rat) \<Rightarrow> checker \<Rightarrow> int \<Rightarrow> bool" where
  "computed st0 wt st k =
     (\<forall>c. input_variable_count (store st0) < c \<and> c < k \<longrightarrow>
          (\<exists>nd. node_find st c = Some nd
                \<and> ring_value nd = Some (spec_ring_value st0 wt c)))"

subsection \<open>Reverse implication\<close>

text \<open>
  The per-thread propagator.  The two arrays are allocated with \<^verbatim>\<open>node_count\<close>
  entries; \<open>priority_count\<close> is the number of entries of the heap in use.  The event
  counters are \<^verbatim>\<open>unsigned char\<close> and never pass 2.
\<close>

record propagate_t =
  node_event_count :: "nat list"
  priority_queue :: "int list"
  priority_count :: int
  implicit_deletion_count :: int
  prop_event_count :: int

text \<open>
  The globals of the deletion phase: the checker state, the two fanout maps built by
  \<^verbatim>\<open>build_deletion_structures\<close> and the global counter \<^verbatim>\<open>event_count\<close>.
\<close>

record deletion =
  pog :: checker
  neg_fanouts :: "int list list"
  pos_fanouts :: "int list list"
  event_count :: int

definition new_propagator :: "checker \<Rightarrow> propagate_t" where
  "new_propagator st =
     \<lparr> node_event_count = replicate (nat (node_count st)) 0,
       priority_queue = replicate (nat (node_count st)) 0,
       priority_count = 0, implicit_deletion_count = 0, prop_event_count = 0 \<rparr>"

definition reset_propagator :: "propagate_t \<Rightarrow> propagate_t" where
  "reset_propagator p = p \<lparr> priority_count := 0 \<rparr>"

text \<open>The value read and the value left in the counter.\<close>

definition plusplus_max2 :: "nat \<Rightarrow> nat \<times> nat" where
  "plusplus_max2 c = (c, if c < 2 then c + 1 else c)"

definition var_to_index :: "deletion \<Rightarrow> int \<Rightarrow> int" where
  "var_to_index d var = var - input_variable_count (store (pog d))"

text \<open>A read of an array at a C index; \<open>None\<close> outside the allocation.\<close>

definition at_index :: "'a list \<Rightarrow> int \<Rightarrow> 'a option" where
  "at_index xs i = (if 0 \<le> i \<and> i < int (length xs) then Some (xs ! nat i) else None)"

text \<open>
  The loops of \<^verbatim>\<open>sift_down\<close> and \<^verbatim>\<open>sift_up\<close> on the heap array; \<open>n\<close> is
  \<^verbatim>\<open>prop->priority_count\<close>.
\<close>

function sift_down_loop :: "int list \<Rightarrow> nat \<Rightarrow> nat \<Rightarrow> int list" where
  "sift_down_loop q n idx =
     (let left = 2 * idx + 1 in
      if left < n then
        let right = left + 1;
            min1 = (if q ! left < q ! idx then left else idx);
            min2 = (if right < n \<and> q ! right < q ! min1 then right else min1)
        in if min2 = idx then q
           else sift_down_loop (q[min2 := q ! idx, idx := q ! min2]) n min2
      else q)"
  by pat_completeness auto
termination
  by (relation "measure (\<lambda>(q, n, idx). n - idx)") (auto split: if_splits)

declare sift_down_loop.simps [simp del]

function sift_up_loop :: "int list \<Rightarrow> nat \<Rightarrow> int list" where
  "sift_up_loop q idx =
     (if idx > 0 then
        let parent = (idx - 1) div 2 in
        if q ! idx < q ! parent
        then sift_up_loop (q[idx := q ! parent, parent := q ! idx]) parent
        else q
      else q)"
  by pat_completeness auto
termination
  by (relation "measure (\<lambda>(q, idx). idx)") auto

declare sift_up_loop.simps [simp del]

definition sift_down :: "propagate_t \<Rightarrow> nat \<Rightarrow> propagate_t" where
  "sift_down p idx =
     p \<lparr> priority_queue := sift_down_loop (priority_queue p) (nat (priority_count p)) idx \<rparr>"

definition sift_up :: "propagate_t \<Rightarrow> nat \<Rightarrow> propagate_t" where
  "sift_up p idx = p \<lparr> priority_queue := sift_up_loop (priority_queue p) idx \<rparr>"

definition priority_add :: "deletion \<Rightarrow> propagate_t \<Rightarrow> int \<Rightarrow> error + propagate_t" where
  "priority_add d p var =
     (let index = var_to_index d var in
      case at_index (node_event_count p) (index - 1) of
        None \<Rightarrow> Inl MemoryFault
      | Some c \<Rightarrow>
          let (rval, c') = plusplus_max2 c;
              p1 = p \<lparr> node_event_count := (node_event_count p)[nat (index - 1) := c'] \<rparr>
          in if rval = 0 then
               if 0 \<le> priority_count p \<and> priority_count p < int (length (priority_queue p))
               then Inr (sift_up
                      (p1 \<lparr> priority_queue := (priority_queue p)[nat (priority_count p) := var],
                            priority_count := priority_count p + 1 \<rparr>)
                      (nat (priority_count p)))
               else Inl MemoryFault
             else Inr p1)"

text \<open>\<^verbatim>\<open>priority_next\<close> returns the node id taken, or \<open>-1\<close> for an empty heap.\<close>

definition priority_next :: "propagate_t \<Rightarrow> error + (int \<times> propagate_t)" where
  "priority_next p =
     (if priority_count p = 0 then Inr (- 1, p)
      else if priority_count p < 0 \<or> priority_count p > int (length (priority_queue p))
      then Inl MemoryFault
      else
        let var = priority_queue p ! 0;
            n = priority_count p - 1;
            p1 = p \<lparr> priority_queue := (priority_queue p)[0 := priority_queue p ! nat n],
                     priority_count := n \<rparr>;
            p2 = sift_down p1 0
        in Inr (var, p2 \<lparr> prop_event_count := prop_event_count p2 + 1 \<rparr>))"

fun add_fanouts :: "deletion \<Rightarrow> propagate_t \<Rightarrow> int list \<Rightarrow> error + propagate_t" where
  "add_fanouts d p [] = Inr p"
| "add_fanouts d p (f # fs) = ebind (priority_add d p f) (\<lambda>p1. add_fanouts d p1 fs)"

definition fanouts_of :: "deletion \<Rightarrow> int \<Rightarrow> int list option" where
  "fanouts_of d lit =
     (let var = IABS lit in
      if lit < 0 then at_index (pos_fanouts d) (var - 1)
      else at_index (neg_fanouts d) (var - 1))"

definition process_fanout :: "deletion \<Rightarrow> propagate_t \<Rightarrow> int \<Rightarrow> error + propagate_t" where
  "process_fanout d p lit =
     (case fanouts_of d lit of
        None \<Rightarrow> Inl MemoryFault
      | Some fanouts \<Rightarrow> add_fanouts d p fanouts)"

text \<open>The first loop of \<^verbatim>\<open>rup_run_input\<close>, over the literals of the input clause.\<close>

fun clause_fanouts :: "deletion \<Rightarrow> propagate_t \<Rightarrow> int list \<Rightarrow> error + propagate_t" where
  "clause_fanouts d p [] = Inr p"
| "clause_fanouts d p (lit # lits) =
     ebind (process_fanout d p (- lit)) (\<lambda>p1. clause_fanouts d p1 lits)"

text \<open>
  The body of the main loop for the node \<open>var\<close> just taken from the heap.  The result
  holds the new value of \<open>conflict\<close> and the line of the level-3 trace: node id, event
  count and threshold.  The children of a node that was never created are NULL.
\<close>

type_synonym event = "int \<times> nat \<times> int"

definition propagate_threshold :: "node \<Rightarrow> int" where
  "propagate_threshold nd =
     (if node_type nd = NODE_SUM then int (length (children nd)) else 1)"

definition rup_event ::
    "deletion \<Rightarrow> propagate_t \<Rightarrow> int \<Rightarrow> error + (bool \<times> event \<times> deletion \<times> propagate_t)" where
  "rup_event d p var =
     (let d1 = d \<lparr> event_count := event_count d + 1 \<rparr>;
          idx = var_to_index d var in
      case at_index (node_list (pog d)) (idx - 1) of
        None \<Rightarrow> Inl MemoryFault
      | Some nd \<Rightarrow>
          if node_type nd = NODE_NONE then Inl MemoryFault
          else
            case at_index (node_event_count p) (idx - 1) of
              None \<Rightarrow> Inl MemoryFault
            | Some ecount \<Rightarrow>
                let p1 = p \<lparr> node_event_count := (node_event_count p)[nat (idx - 1) := 0] \<rparr>;
                    ev = (node_id nd, ecount, propagate_threshold nd)
                in if int ecount \<ge> propagate_threshold nd then
                     ebind (process_fanout d1 p1 (- node_id nd))
                       (\<lambda>p2. Inr (var = declared_root (pog d), ev, d1, p2))
                   else Inr (False, ev, d1, p1))"

text \<open>
  The main loop, entered with \<open>conflict\<close> false; it leaves with the final value of
  \<open>conflict\<close>.  Nothing in the code bounds the number of iterations.
\<close>

partial_function (option) rup_input_loop ::
    "deletion \<Rightarrow> propagate_t \<Rightarrow> event list
       \<Rightarrow> (error + (bool \<times> event list \<times> deletion \<times> propagate_t)) option" where
  "rup_input_loop d p trace =
     (case priority_next p of
        Inl e \<Rightarrow> Some (Inl e)
      | Inr (var, p1) \<Rightarrow>
          if var > 0 then
            case rup_event d p1 var of
              Inl e \<Rightarrow> Some (Inl e)
            | Inr (conflict, ev, d2, p2) \<Rightarrow>
                if conflict then Some (Inr (True, trace @ [ev], d2, p2))
                else rup_input_loop d2 p2 (trace @ [ev])
          else Some (Inr (False, trace, d, p1)))"

declare rup_input_loop.simps [code]

definition rup_run_input ::
    "deletion \<Rightarrow> propagate_t \<Rightarrow> int \<Rightarrow> int list \<Rightarrow> (error + (deletion \<times> propagate_t)) option" where
  "rup_run_input d p tcid lits =
     (case clause_fanouts d p lits of
        Inl e \<Rightarrow> Some (Inl e)
      | Inr p1 \<Rightarrow>
          (case rup_input_loop d p1 [] of
             None \<Rightarrow> None
           | Some (Inl e) \<Rightarrow> Some (Inl e)
           | Some (Inr (conflict, trace, d2, p2)) \<Rightarrow>
               if \<not> conflict then Some (Inl (ImplicitDeletionFailed tcid))
               else Some (Inr (d2, reset_propagator p2))))"

text \<open>
  \<^verbatim>\<open>build_deletion_structures\<close>: \<open>neg_fanouts\<close> has an entry for each input
  variable and \<open>pos_fanouts\<close> one for each variable up to the declared root.  The loop
  visits the first \<^verbatim>\<open>node_count\<close> entries of the node array and appends the id of
  each node to the fanout list of each of its children.
\<close>

definition push_fanout :: "int list list \<Rightarrow> int \<Rightarrow> int \<Rightarrow> int list list option" where
  "push_fanout fan var ident =
     (if 1 \<le> var \<and> var \<le> int (length fan)
      then Some (fan[nat (var - 1) := fan ! nat (var - 1) @ [ident]])
      else None)"

fun child_fanouts ::
    "int \<Rightarrow> int list \<Rightarrow> int list list \<times> int list list
       \<Rightarrow> error + (int list list \<times> int list list)" where
  "child_fanouts ident [] fans = Inr fans"
| "child_fanouts ident (clit # cs) (nf, pf) =
     (if clit < 0 then
        (case push_fanout nf (IABS clit) ident of
           None \<Rightarrow> Inl MemoryFault
         | Some nf' \<Rightarrow> child_fanouts ident cs (nf', pf))
      else
        (case push_fanout pf (IABS clit) ident of
           None \<Rightarrow> Inl MemoryFault
         | Some pf' \<Rightarrow> child_fanouts ident cs (nf, pf')))"

fun node_fanouts ::
    "node list \<Rightarrow> int list list \<times> int list list
       \<Rightarrow> error + (int list list \<times> int list list)" where
  "node_fanouts [] fans = Inr fans"
| "node_fanouts (nd # nds) fans =
     (if node_type nd = NODE_NONE then node_fanouts nds fans
      else ebind (child_fanouts (node_id nd) (children nd) fans) (node_fanouts nds))"

text \<open>The loops that remove duplicates from the lists of the input variables.\<close>

definition dedup_fanouts :: "int \<Rightarrow> int list list \<Rightarrow> int list list option" where
  "dedup_fanouts nvar fan =
     (if nvar \<le> int (length fan)
      then Some (map ilist_deduplicate (take (nat nvar) fan) @ drop (nat nvar) fan)
      else None)"

definition build_deletion_structures :: "options \<Rightarrow> checker \<Rightarrow> error + deletion" where
  "build_deletion_structures opts st =
     (let nvar = input_variable_count (store st) in
      if node_count st > node_asize st then Inl MemoryFault
      else
        case node_fanouts (take (nat (node_count st)) (node_list st))
               (replicate (nat nvar) [], replicate (nat (declared_root st)) []) of
          Inl e \<Rightarrow> Inl e
        | Inr (nf, pf) \<Rightarrow>
            if repeated_literal_ok opts then
              (case (dedup_fanouts nvar nf, dedup_fanouts nvar pf) of
                 (Some nf', Some pf') \<Rightarrow>
                   Inr \<lparr> pog = st, neg_fanouts = nf', pos_fanouts = pf', event_count = 0 \<rparr>
               | _ \<Rightarrow> Inl MemoryFault)
            else Inr \<lparr> pog = st, neg_fanouts = nf, pos_fanouts = pf, event_count = 0 \<rparr>)"

text \<open>The structures of the small checker state: node 2 is the only fanout, of literal 1.\<close>

definition unit_deletion :: deletion where
  "unit_deletion =
     \<lparr> pog = pog_unit_state, neg_fanouts = [[]], pos_fanouts = [[2], []], event_count = 0 \<rparr>"

text \<open>
  A POG with a sum node, for the formula \<open>(1 \<or> 2)\<close>: node 3 is the product of the
  literal 1, node 4 the product of \<open>\<not>1\<close> and 2, and the root 5 is their sum.  Of the
  clause store the deletion phase reads only \<^verbatim>\<open>input_variable_count\<close>.
\<close>

definition sum_pog :: checker where
  "sum_pog =
     pog_unit_state
       \<lparr> store := (store pog_unit_state) \<lparr> input_variable_count := 2 \<rparr>,
         node_list :=
           [\<lparr> node_type = NODE_PRODUCT, node_id = 3, node_cid = 2, dependency_list = [1],
              children = [1], ring_value = None \<rparr>,
            \<lparr> node_type = NODE_PRODUCT, node_id = 4, node_cid = 4, dependency_list = [1, 2],
              children = [- 1, 2], ring_value = None \<rparr>,
            \<lparr> node_type = NODE_SUM, node_id = 5, node_cid = 7, dependency_list = [1, 2],
              children = [3, 4], ring_value = None \<rparr>],
         node_count := 3, declared_root := 5 \<rparr>"

definition sum_deletion :: deletion where
  "sum_deletion =
     \<lparr> pog = sum_pog, neg_fanouts = [[4], []], pos_fanouts = [[3], [4], [5], [5], []],
       event_count = 0 \<rparr>"

text \<open>
  The entries of the heap, and the invariant of the propagator between two steps of
  \<^verbatim>\<open>rup_run_input\<close>: the heap holds distinct node ids, each with a counter in the
  array and a positive event count, and no counter is above 2.  \<open>nvar\<close> is \<^verbatim>\<open>input_variable_count\<close>.
\<close>

definition queue :: "propagate_t \<Rightarrow> int list" where
  "queue p = take (nat (priority_count p)) (priority_queue p)"

definition counted :: "int \<Rightarrow> propagate_t \<Rightarrow> int \<Rightarrow> bool" where
  "counted nvar p v =
     (nvar < v \<and> v \<le> nvar + int (length (node_event_count p)))"

definition prop_ok :: "int \<Rightarrow> propagate_t \<Rightarrow> bool" where
  "prop_ok nvar p =
     (length (priority_queue p) = length (node_event_count p)
      \<and> 0 \<le> priority_count p \<and> priority_count p \<le> int (length (priority_queue p))
      \<and> (\<forall>c \<in> set (node_event_count p). c \<le> 2)
      \<and> distinct (queue p)
      \<and> (\<forall>v \<in> set (queue p).
            counted nvar p v \<and> 0 < node_event_count p ! nat (v - nvar - 1)))"

text \<open>
  What \<^verbatim>\<open>rup_run_input\<close> relies on in the structures built before it runs, for a
  propagator with \<open>n\<close> counters: the nodes \<open>nvar + 1 .. nvar + n\<close> exist and carry
  their ids, the fanout lists name only such nodes, and \<open>depth\<close> falls along every
  fanout edge between nodes, so that the POG has no cycle.
\<close>

definition fanouts_ok :: "deletion \<Rightarrow> nat \<Rightarrow> (int \<Rightarrow> nat) \<Rightarrow> bool" where
  "fanouts_ok d n depth =
     (let nvar = input_variable_count (store (pog d)) in
      0 \<le> nvar
      \<and> n \<le> length (node_list (pog d))
      \<and> nvar + int n \<le> int (length (pos_fanouts d))
      \<and> (\<forall>i < n. node_type (node_list (pog d) ! i) \<noteq> NODE_NONE
                  \<and> node_id (node_list (pog d) ! i) = nvar + 1 + int i)
      \<and> (\<forall>fs \<in> set (pos_fanouts d) \<union> set (neg_fanouts d).
            \<forall>t \<in> set fs. nvar < t \<and> t \<le> nvar + int n)
      \<and> (\<forall>i < n. \<forall>t \<in> set (pos_fanouts d ! nat (nvar + int i)).
            depth t < depth (nvar + 1 + int i)))"

text \<open>A line of the trace where the node reached its threshold.\<close>

definition fired :: "event \<Rightarrow> bool" where
  "fired ev = (case ev of (ident, ecount, threshold) \<Rightarrow> threshold \<le> int ecount)"

definition root_fired :: "deletion \<Rightarrow> event list \<Rightarrow> bool" where
  "root_fired d trace = (\<exists>ev \<in> set trace. fst ev = declared_root (pog d) \<and> fired ev)"

text \<open>
  A line of the trace is as the firing rule says: the node exists, the threshold is its
  number of children for a sum and 1 for every other node, and the event count read is
  1 or 2.
\<close>

definition event_ok :: "deletion \<Rightarrow> event \<Rightarrow> bool" where
  "event_ok d ev =
     (case ev of (ident, ecount, threshold) \<Rightarrow>
        (\<exists>nd. node_find (pog d) ident = Some nd \<and> node_type nd \<noteq> NODE_NONE
            \<and> threshold = (if node_type nd = NODE_SUM then int (length (children nd)) else 1))
        \<and> 1 \<le> ecount \<and> ecount \<le> 2)"

subsection \<open>Two proof files on the formula of one unit clause\<close>

text \<open>\<^verbatim>\<open>cpog_read_root\<close>, the command \<^verbatim>\<open>r\<close>.\<close>

definition cpog_read_root :: "checker \<Rightarrow> error + checker" where
  "cpog_read_root st =
     (case token_next (toks st) of
        (TOK_INT v, ts) \<Rightarrow>
          Inr (st \<lparr> toks := ts, declared_root := v,
                    declared_unsatisfiable := (declared_unsatisfiable st \<or> v = 0) \<rparr>)
      | _ \<Rightarrow> Inl ParseError)"

text \<open>The state after \<^verbatim>\<open>cnf_read\<close> of \<^verbatim>\<open>p cnf 1 1 / 1 0\<close>.\<close>

definition cnf_unit_state :: checker where
  "cnf_unit_state =
     \<lparr> lit_set = lset_empty,
       store = \<lparr> chunk_set = [[1, 0]], chunk_used = 2, clause_count = 1, clause_last_id = 1,
                 current_clause = [1, 0],
                 clause_blocks = [\<lparr> start_id = 1, slots =
                    [\<lparr> chunk = 0, offset = 0, type_of = CLAUSE_INPUT \<rparr>] \<rparr>],
                 input_clause_count = 1, input_variable_count = 1, variable_limit = 1 \<rparr>,
       toks = [], node_list = [],
       node_count = 0, declared_root = 0, root_clause_added = False,
       declared_unsatisfiable = False, proved_unsatisfiable = False, is_pkc = False,
       show_variables = [], explicit_deletion_count = 0, virtual_clause_count = 0 \<rparr>"

text \<open>
  \<^verbatim>\<open>cpog_read\<close> hands each command the tokens after the clause id and the command
  letter: \<open>command_line st vs\<close> is the state with the integers \<open>vs\<close> and the end of the
  line to read.  \<open>and_then\<close> runs the next command when the one before was accepted.
\<close>

definition command_line :: "checker \<Rightarrow> int list \<Rightarrow> checker" where
  "command_line st vs = st \<lparr> toks := map TOK_INT vs @ [TOK_EOL] \<rparr>"

definition and_then ::
    "(error + 'a) option \<Rightarrow> ('a \<Rightarrow> (error + 'b) option) \<Rightarrow> (error + 'b) option" where
  "and_then m f = (case m of None \<Rightarrow> None | Some (Inl e) \<Rightarrow> Some (Inl e) | Some (Inr x) \<Rightarrow> f x)"

text \<open>
  The proof file \<^verbatim>\<open>r 3 / 2 p 2 1 2 0 / 5 p 3 1 0 / 7 a 3 0 1 5 0\<close>: node 2 is the product
  of the literal 1 and of node 2 itself, the root 3 is the product of the literal 1.
\<close>

definition self_child_run :: "(error + checker) option" where
  "self_child_run =
     and_then (Some (cpog_read_root (command_line cnf_unit_state [3]))) (\<lambda>st0.
     and_then (Some (cpog_add_product default_options (command_line st0 [2, 1, 2, 0]) 2)) (\<lambda>st1.
     and_then (Some (cpog_add_product default_options (command_line st1 [3, 1, 0]) 5)) (\<lambda>st2.
     cpog_add_clause default_options (command_line st2 [3, 0, 1, 5, 0]) 7 False)))"

text \<open>The state that proof file leaves, and the fanout maps of its nodes.\<close>

definition self_child_state :: checker where
  "self_child_state =
     \<lparr> lit_set = \<lparr> lset_generation = 1, lset_array = [1, 0, - 1, 0, 0, 0, 0, 0, 0, 0] \<rparr>,
       store =
         \<lparr> chunk_set = [[1, 0, 2, - 1, - 2, 0, - 2, 1, 0, - 2, 2, 0, 3, - 1, 0, - 3, 1, 0, 3, 0]],
           chunk_used = 20, clause_count = 7, clause_last_id = 7, current_clause = [3, 0],
           clause_blocks =
             [\<lparr> start_id = 1, slots = [\<lparr> chunk = 0, offset = 0, type_of = CLAUSE_INPUT \<rparr>] \<rparr>,
              \<lparr> start_id = 2, slots =
                 [\<lparr> chunk = 0, offset = 2, type_of = CLAUSE_TSEITIN \<rparr>,
                  \<lparr> chunk = 0, offset = 6, type_of = CLAUSE_TSEITIN \<rparr>,
                  \<lparr> chunk = 0, offset = 9, type_of = CLAUSE_TSEITIN \<rparr>,
                  \<lparr> chunk = 0, offset = 12, type_of = CLAUSE_TSEITIN \<rparr>,
                  \<lparr> chunk = 0, offset = 15, type_of = CLAUSE_TSEITIN \<rparr>,
                  \<lparr> chunk = 0, offset = 18, type_of = CLAUSE_ROOT \<rparr>] \<rparr>],
           input_clause_count = 1, input_variable_count = 1, variable_limit = 11 \<rparr>,
       toks = [],
       node_list =
         [\<lparr> node_type = NODE_PRODUCT, node_id = 2, node_cid = 2, dependency_list = [1],
            children = [1, 2], ring_value = None \<rparr>,
          \<lparr> node_type = NODE_PRODUCT, node_id = 3, node_cid = 5, dependency_list = [1],
            children = [1], ring_value = None \<rparr>]
         @ map (\<lambda>idx. empty_node (int idx + 2)) [2 ..< 10],
       node_count = 2, declared_root = 3, root_clause_added = True,
       declared_unsatisfiable = False, proved_unsatisfiable = False, is_pkc = False,
       show_variables = [], explicit_deletion_count = 0, virtual_clause_count = 0 \<rparr>"

definition self_child_deletion :: deletion where
  "self_child_deletion =
     \<lparr> pog = self_child_state, neg_fanouts = [[]], pos_fanouts = [[2, 3], [2], []],
       event_count = 0 \<rparr>"

text \<open>
  The propagator of that run each time the main loop of \<^verbatim>\<open>rup_run_input\<close> is back at
  its head: nodes 2 and 3 are in the heap with one event each, and only the counter
  \<^verbatim>\<open>event_count\<close> has moved.
\<close>

definition self_child_propagator :: "int \<Rightarrow> propagate_t" where
  "self_child_propagator j =
     \<lparr> node_event_count = [1, 1], priority_queue = [2, 3], priority_count = 2,
       implicit_deletion_count = 0, prop_event_count = j \<rparr>"

text \<open>The propagator after \<^verbatim>\<open>priority_next\<close> has taken node 2 from that heap.\<close>

definition self_child_popped :: "int \<Rightarrow> propagate_t" where
  "self_child_popped j =
     \<lparr> node_event_count = [1, 1], priority_queue = [3, 3], priority_count = 1,
       implicit_deletion_count = 0, prop_event_count = j \<rparr>"

text \<open>
  The proof file \<^verbatim>\<open>r 2 / 2 p 3 1 0 / 4 p 2 3 0 / 6 a 2 0 1 2 4 0 / d 1 3 5 6 0\<close>: node 3
  is the product of the literal 1, and the root 2, created after it, is the product of
  node 3.  The only input clause is deleted by the last command.
\<close>

definition child_above_run :: "(error + checker) option" where
  "child_above_run =
     and_then (Some (cpog_read_root (command_line cnf_unit_state [2]))) (\<lambda>st0.
     and_then (Some (cpog_add_product default_options (command_line st0 [3, 1, 0]) 2)) (\<lambda>st1.
     and_then (Some (cpog_add_product default_options (command_line st1 [2, 3, 0]) 4)) (\<lambda>st2.
     and_then (cpog_add_clause default_options (command_line st2 [2, 0, 1, 2, 4, 0]) 6 False)
       (\<lambda>st3.
     cpog_delete_clause default_options (command_line st3 [1, 3, 5, 6, 0])))))"

section \<open>Properties\<close>

subsection \<open>The literal set\<close>

lemma lset_get_lit_check_size:
  assumes "0 < lset_generation s"
  shows "lset_get_lit v (lset_check_size var s) = lset_get_lit v s"
proof -
  have "lset_get_lit v (lset_init var) = 0"
    by (auto simp: lset_get_lit_def lset_init_def lset_asize_def Let_def MIN_SIZE_def)
  moreover have "lset_asize s = 0 \<Longrightarrow> lset_get_lit v s = 0"
    by (simp add: lset_get_lit_def)
  moreover have "lset_get_lit v (s \<lparr> lset_array := lset_array s @ replicate k 0 \<rparr>)
      = lset_get_lit v s" for k
    using assms
    by (auto simp: lset_get_lit_def lset_asize_def Let_def nth_append)
  ultimately show ?thesis
    by (simp add: lset_check_size_def Let_def)
qed

lemma lset_check_size_generation:
  "0 < lset_generation s \<Longrightarrow> 0 < lset_generation (lset_check_size var s)"
  by (simp add: lset_check_size_def lset_init_def Let_def)

lemma lset_check_size_asize:
  "var \<le> lset_asize (lset_check_size var s)"
  by (auto simp: lset_check_size_def lset_init_def lset_asize_def MIN_SIZE_def Let_def)

lemma lset_get_lit_range:
  "lset_get_lit v s = 0 \<or> lset_get_lit v s = v \<or> lset_get_lit v s = - v"
  by (simp add: lset_get_lit_def Let_def)

lemma lset_add_lit_effect:
  assumes "lit \<noteq> 0" and "0 < lset_generation s"
  shows "\<exists>b s'. lset_add_lit lit s = Inr (b, s')
           \<and> (b = False \<longleftrightarrow> lset_get_lit (IABS lit) s = - lit)
           \<and> (\<not> b \<longrightarrow> (\<forall>v. lset_get_lit v s' = lset_get_lit v s))
           \<and> (b \<longrightarrow> lset_get_lit (IABS lit) s' = lit
                 \<and> (\<forall>v. v \<noteq> IABS lit \<longrightarrow> lset_get_lit v s' = lset_get_lit v s))"
proof -
  define var where "var = IABS lit"
  define s1 where "s1 = lset_check_size var s"
  have var_pos: "0 < var" and lit_cases: "lit = var \<or> lit = - var"
    using assms(1) by (auto simp: var_def IABS_def)
  have g1: "0 < lset_generation s1"
    using assms(2) by (simp add: s1_def lset_check_size_generation)
  have size1: "var \<le> lset_asize s1"
    by (simp add: s1_def lset_check_size_asize)
  have same: "lset_get_lit v s1 = lset_get_lit v s" for v
    using assms(2) by (simp add: s1_def lset_get_lit_check_size)
  have range: "lset_get_lit var s1 = 0 \<or> lset_get_lit var s1 = var \<or> lset_get_lit var s1 = - var"
    by (rule lset_get_lit_range)
  show ?thesis
  proof (cases "lset_get_lit var s1 \<noteq> 0 \<and> lset_get_lit var s1 \<noteq> lit")
    case True
    then have "lset_add_lit lit s = Inr (False, s1)"
      by (simp add: lset_add_lit_def Let_def var_def [symmetric] s1_def [symmetric])
    moreover have "lset_get_lit var s = - lit"
      using True range lit_cases same by auto
    ultimately show ?thesis
      using same by (intro exI [of _ False] exI [of _ s1]) (simp add: var_def)
  next
    case False
    define val where "val = (if lit > 0 then lset_generation s1 else - lset_generation s1)"
    define s2 where "s2 = s1 \<lparr> lset_array := (lset_array s1) [nat (var - 1) := val] \<rparr>"
    have add: "lset_add_lit lit s = Inr (True, s2)"
      using False var_pos size1
      by (simp add: lset_add_lit_def Let_def var_def [symmetric] s1_def [symmetric]
          s2_def val_def)
    have not_opp: "lset_get_lit var s \<noteq> - lit"
      using False range lit_cases same var_pos by auto
    have get_var: "lset_get_lit var s2 = lit"
      using var_pos size1 g1 lit_cases
      by (auto simp: lset_get_lit_def s2_def val_def lset_asize_def Let_def)
    have get_other: "lset_get_lit v s2 = lset_get_lit v s" if "v \<noteq> var" for v
    proof -
      have "lset_get_lit v s2 = lset_get_lit v s1"
      proof (cases "v \<le> 0")
        case True
        then show ?thesis by (simp add: lset_get_lit_def)
      next
        case False
        then have "nat (var - 1) \<noteq> nat (v - 1)"
          using that var_pos by arith
        then show ?thesis
          by (simp add: lset_get_lit_def s2_def lset_asize_def Let_def)
      qed
      then show ?thesis by (simp add: same)
    qed
    show ?thesis
      using add not_opp get_var get_other
      by (intro exI [of _ True] exI [of _ s2]) (simp add: var_def)
  qed
qed

text \<open>
  Claim C10.  For a literal \<open>lit\<close> (nonzero) and a literal set whose generation is
  positive (as it is after any \<^verbatim>\<open>lset_clear\<close>), \<^verbatim>\<open>lset_add_lit\<close> returns
  \<^verbatim>\<open>false\<close> iff the set holds the opposite literal, and then the set holds the same
  literals as before; otherwise it returns \<^verbatim>\<open>true\<close>, the set holds \<open>lit\<close>
  afterwards, and the entry of every other variable is as before.
\<close>

theorem lset_add_lit_spec:
  assumes "lit \<noteq> 0" and "0 < lset_generation s"
  shows "\<exists>b s'. lset_add_lit lit s = Inr (b, s')
           \<and> (b = False \<longleftrightarrow> lset_get_lit (IABS lit) s = - lit)
           \<and> (\<not> b \<longrightarrow> (\<forall>v. lset_get_lit v s' = lset_get_lit v s))
           \<and> (b \<longrightarrow> lset_get_lit (IABS lit) s' = lit
                 \<and> (\<forall>v. v \<noteq> IABS lit \<longrightarrow> lset_get_lit v s' = lset_get_lit v s))"
  using assms by (rule lset_add_lit_effect)

theorem lset_add_lit_spec_witness:
  "\<exists>b s'. lset_add_lit (- 2) \<lparr> lset_generation = 1, lset_array = [0, 1] \<rparr> = Inr (b, s')
     \<and> (b = False \<longleftrightarrow>
          lset_get_lit (IABS (- 2)) \<lparr> lset_generation = 1, lset_array = [0, 1] \<rparr> = - (- 2))
     \<and> (\<not> b \<longrightarrow> (\<forall>v. lset_get_lit v s'
                        = lset_get_lit v \<lparr> lset_generation = 1, lset_array = [0, 1] \<rparr>))
     \<and> (b \<longrightarrow> lset_get_lit (IABS (- 2)) s' = - 2
           \<and> (\<forall>v. v \<noteq> IABS (- 2) \<longrightarrow> lset_get_lit v s'
                    = lset_get_lit v \<lparr> lset_generation = 1, lset_array = [0, 1] \<rparr>))"
  by (rule lset_add_lit_spec) simp_all

subsection \<open>Unit propagation on one hint clause\<close>

lemma cnf_two_units_read:
  "ebind (store_clause (clause_init 2 2) 1 [1] CLAUSE_INPUT)
     (\<lambda>cs. store_clause cs 2 [1, 2] CLAUSE_INPUT) = Inr cnf_two_units"
  by (simp add: store_clause_def ebind_def start_clause_def clause_init_def
      clause_add_literal_def finish_clause_def push_slots_def IABS_def Let_def
      clause_block_count_def chunk_count_def CHUNK_SIZE_def MAX_GAP_def null_slot_def
      cnf_two_units_def)













subsection \<open>Blocks of the clause store\<close>

lemmas store_eval_defs = store_clause_def ebind_def start_clause_def clause_init_def
      clause_add_literal_def finish_clause_def push_slots_def IABS_def Let_def
      clause_block_count_def chunk_count_def CHUNK_SIZE_def MAX_GAP_def null_slot_def

lemma pog_unit_store_built:
  "ebind (store_clause (clause_init 1 1) 1 [1] CLAUSE_INPUT) (\<lambda>cs1.
   ebind (store_clause (cs1 \<lparr> variable_limit := 11 \<rparr>) 2 [2, - 1] CLAUSE_TSEITIN) (\<lambda>cs2.
   ebind (store_clause cs2 3 [- 2, 1] CLAUSE_TSEITIN) (\<lambda>cs3.
   store_clause cs3 4 [2] CLAUSE_ROOT))) = Inr pog_unit_store"
  by (simp add: store_eval_defs pog_unit_store_def)

text \<open>
  Claim C8 as stated fails.  With last assigned id 4, two blocks already there and
  the new id 15, the number of skipped ids is 10, which does not exceed \<open>MAX_GAP\<close>,
  and 15 is not the first id after the input clauses; the code opens a third block.
\<close>

theorem start_clause_gap_counterexample:
  "15 - clause_last_id pog_unit_store - 1 = MAX_GAP
   \<and> input_clause_count pog_unit_store < clause_last_id pog_unit_store
   \<and> length (clause_blocks pog_unit_store) = 2
   \<and> map_sum id (\<lambda>cs'. length (clause_blocks cs')) (start_clause pog_unit_store 15) = Inr 3"
  by (simp add: pog_unit_store_def start_clause_def MAX_GAP_def clause_block_count_def Let_def)

text \<open>
  Claim C8, amended.  For an id above the last assigned one, \<^verbatim>\<open>start_clause\<close> opens
  a new block exactly when the id exceeds the last assigned id by more than
  \<open>MAX_GAP\<close> (at least \<open>MAX_GAP\<close> ids skipped), or the store still has its single
  initial block and the id exceeds the input clause count.  In every other case it
  pushes one hole (chunk and offset -1, type \<open>CLAUSE_UNKNOWN\<close>) per skipped id onto
  the last block.  Either way, if the last block ended at the last assigned id, the
  position the clause will take in its block is its id minus the block's start id.
\<close>

theorem start_clause_blocks:
  assumes "clause_last_id cs < cid" and "clause_blocks cs \<noteq> []"
  shows "\<exists>cs'. start_clause cs cid = Inr cs'
     \<and> clause_last_id cs' = cid
     \<and> null_slot = \<lparr> chunk = - 1, offset = - 1, type_of = CLAUSE_UNKNOWN \<rparr>
     \<and> (if cid - clause_last_id cs > MAX_GAP
            \<or> clause_block_count cs = 1 \<and> cid > input_clause_count cs
         then clause_blocks cs' = clause_blocks cs @ [\<lparr> start_id = cid, slots = [] \<rparr>]
         else clause_blocks cs' = butlast (clause_blocks cs) @
                [(last (clause_blocks cs)) \<lparr> slots := slots (last (clause_blocks cs))
                    @ replicate (nat (cid - clause_last_id cs - 1)) null_slot \<rparr>])
     \<and> (start_id (last (clause_blocks cs)) + length_blk (last (clause_blocks cs))
            = clause_last_id cs + 1 \<longrightarrow>
          start_id (last (clause_blocks cs')) + length_blk (last (clause_blocks cs')) = cid)"
proof -
  let ?new = "cid > clause_last_id cs + MAX_GAP
              \<or> clause_block_count cs = 1 \<and> cid > input_clause_count cs"
  have upd: "xs [length xs - 1 := y] = butlast xs @ [y]" if "xs \<noteq> []" for xs :: "clause_block list" and y
    using that by (induction xs rule: rev_induct) (simp_all add: list_update_append)
  have lst: "xs ! (length xs - 1) = last xs" if "xs \<noteq> []" for xs :: "clause_block list"
    using that by (simp add: last_conv_nth)
  show ?thesis
  proof (cases ?new)
    case True
    then show ?thesis
      using assms
      by (auto simp: start_clause_def Let_def length_blk_def null_slot_def)
  next
    case False
    then show ?thesis
      using assms upd [OF assms(2)] lst [OF assms(2)]
      by (auto simp: start_clause_def Let_def length_blk_def push_slots_def null_slot_def)
  qed
qed

theorem start_clause_blocks_witness:
  "\<exists>cs'. start_clause pog_unit_store 7 = Inr cs'
     \<and> clause_last_id cs' = 7
     \<and> clause_blocks cs' = butlast (clause_blocks pog_unit_store) @
                [(last (clause_blocks pog_unit_store))
                   \<lparr> slots := slots (last (clause_blocks pog_unit_store))
                    @ replicate 2 null_slot \<rparr>]
     \<and> start_id (last (clause_blocks cs')) + length_blk (last (clause_blocks cs')) = 7"
proof -
  have "clause_last_id pog_unit_store < 7" and "clause_blocks pog_unit_store \<noteq> []"
    by (simp_all add: pog_unit_store_def)
  from start_clause_blocks [OF this] obtain cs' where
    "start_clause pog_unit_store 7 = Inr cs'" and "clause_last_id cs' = 7"
    and "if 7 - clause_last_id pog_unit_store > MAX_GAP
            \<or> clause_block_count pog_unit_store = 1 \<and> 7 > input_clause_count pog_unit_store
         then clause_blocks cs' = clause_blocks pog_unit_store @ [\<lparr> start_id = 7, slots = [] \<rparr>]
         else clause_blocks cs' = butlast (clause_blocks pog_unit_store) @
                [(last (clause_blocks pog_unit_store))
                   \<lparr> slots := slots (last (clause_blocks pog_unit_store))
                    @ replicate (nat (7 - clause_last_id pog_unit_store - 1)) null_slot \<rparr>]"
    and "start_id (last (clause_blocks pog_unit_store))
            + length_blk (last (clause_blocks pog_unit_store))
            = clause_last_id pog_unit_store + 1 \<longrightarrow>
          start_id (last (clause_blocks cs')) + length_blk (last (clause_blocks cs')) = 7"
    by blast
  then show ?thesis
    by (intro exI [of _ cs'])
      (simp add: pog_unit_store_def MAX_GAP_def clause_block_count_def length_blk_def
        numeral_2_eq_2)
qed

subsection \<open>Deleting a clause\<close>

lemmas eval_defs = find_clause_def clause_block_count_def length_blk_def
  clause_locate_def slot_at_def chunk_count_def lits_from_def clause_type_def
  rup_run_def rup_unit_prop_def rup_setup_def
  lset_clear_def lset_empty_def wrap32_def lset_get_lit_def lset_asize_def IABS_def
  RUP_CONFLICT_def RUP_STALL_def INT_MAX_def lset_add_lit_def lset_check_size_def
  lset_init_def MIN_SIZE_def default_options_def Let_def ebind_def
  clause_delete_def set_slot_type_def

text \<open>
  Claim C9 at a second deletion.  The command \<^verbatim>\<open>d 1 3 4 0\<close> deletes input clause 1:
  its type becomes \<open>CLAUSE_UNKNOWN\<close>, its literals stay addressable, and the count
  of explicit deletions is 1.  The same command again is accepted as well, and the
  count becomes 2: \<^verbatim>\<open>clause_delete\<close> tests the offset of the slot, which a deletion
  leaves as it is.
\<close>

theorem double_deletion_accepted:
  "(case cpog_delete_clause default_options (pog_unit_state \<lparr> toks := delete_first_clause \<rparr>) of
      Some (Inr st1) \<Rightarrow>
        clause_type (store st1) \<lparr> bid = 0, pos = 0 \<rparr> = CLAUSE_UNKNOWN
        \<and> clause_locate (store st1) \<lparr> bid = 0, pos = 0 \<rparr> = Some [1]
        \<and> explicit_deletion_count st1 = 1
        \<and> (case cpog_delete_clause default_options (st1 \<lparr> toks := delete_first_clause \<rparr>) of
             Some (Inr st2) \<Rightarrow> explicit_deletion_count st2 = 2
           | _ \<Rightarrow> False)
    | _ \<Rightarrow> False)"
  by (simp add: cpog_delete_clause_def pog_unit_state_def pog_unit_store_def
      delete_first_clause_def eval_defs)

subsection \<open>The RUP run\<close>

lemma rup_discard_hints:
  "0 \<notin> set hs \<Longrightarrow> rup_discard (hint_tokens hs rest) = Inr rest"
  by (induction hs) (auto simp: hint_tokens_def)

lemma hint_tokens_Cons: "hint_tokens (h # hs) rest = TOK_INT h # hint_tokens hs rest"
  by (simp add: hint_tokens_def)

lemma hint_tokens_Nil: "hint_tokens [] rest = TOK_INT 0 # rest"
  by (simp add: hint_tokens_def)

lemma rup_loop_after_conflict:
  assumes "0 \<notin> set hs"
  shows "rup_loop opts cs target True ok s (hint_tokens hs rest) =
     (if hs \<noteq> [] \<and> \<not> early_rup opts then Inl ConflictBeforeTermination
      else if ok then Inr (s, rest) else Inl IncompatibleHintType)"
proof (cases hs)
  case Nil
  then show ?thesis by (simp add: hint_tokens_Nil)
next
  case (Cons h hs')
  with assms have "h \<noteq> 0" and "0 \<notin> set hs'" by auto
  then show ?thesis
    using Cons rup_discard_hints [of hs' rest]
    by (simp add: hint_tokens_Cons)
qed

lemma rup_verdict_bump:
  "rup_verdict opts cs target ok (h # hs) rest (bump r) =
   rup_verdict opts cs target (ok \<and> hint_legal cs target h) hs rest r"
  by (cases r) (auto simp: rup_verdict_def)

lemma rup_loop_char:
  assumes "0 \<notin> set hs"
  shows "rup_loop opts cs target False ok s (hint_tokens hs rest) =
         rup_verdict opts cs target ok hs rest (rup_derivation opts cs s hs)"
  using assms
proof (induction hs arbitrary: ok s)
  case Nil
  then show ?case by (simp add: hint_tokens_Nil rup_verdict_def)
next
  case (Cons h hs)
  then have h: "h \<noteq> 0" and hs: "0 \<notin> set hs" by auto
  note IH = Cons.IH [OF hs]
  show ?case
  proof (cases "find_clause cs h")
    case None
    then show ?thesis using h by (simp add: hint_tokens_Cons rup_verdict_def)
  next
    case (Some loc)
    have legal: "hint_legal cs target h = hint_allowed (clause_type cs loc) target"
      by (simp add: hint_legal_def Some)
    show ?thesis
    proof (cases "rup_unit_prop cs s loc")
      case (Inl e)
      then show ?thesis using h Some by (simp add: hint_tokens_Cons rup_verdict_def)
    next
      case (Inr unit)
      consider (conflict) "unit = RUP_CONFLICT"
        | (stall) "unit \<noteq> RUP_CONFLICT" "unit = RUP_STALL"
        | (propagate) "unit \<noteq> RUP_CONFLICT" "unit \<noteq> RUP_STALL"
        by blast
      then show ?thesis
      proof cases
        case conflict
        then show ?thesis
          using h Some Inr legal rup_loop_after_conflict [OF hs]
          by (auto simp: hint_tokens_Cons rup_verdict_def)
      next
        case stall
        then show ?thesis
          using h Some Inr legal IH
          by (simp add: hint_tokens_Cons rup_verdict_bump) (simp add: rup_verdict_def)
      next
        case propagate
        show ?thesis
        proof (cases "lset_add_lit unit s")
          case (Inl e)
          then show ?thesis
            using h Some Inr propagate by (simp add: hint_tokens_Cons rup_verdict_def)
        next
          case (Inr r)
          obtain added s' where r: "r = (added, s')" by (cases r)
          show ?thesis
            using h Some \<open>rup_unit_prop cs s loc = Inr unit\<close> propagate Inr r legal IH
            by (simp add: hint_tokens_Cons rup_verdict_bump)
        qed
      qed
    qed
  qed
qed





text \<open>
  Claim C5.  The switch on the hint's clause type allows a Tseitin hint for every
  target type, and a Skolem or root hint only for an input target.  When the
  propagation reaches a conflict after \<open>k\<close> hints and one of these hints has a type
  not allowed for the target, the run fails with \<open>IncompatibleHintType\<close>; a run that
  succeeds used allowed hints only.
\<close>

theorem hint_types_enforced:
  assumes "0 \<notin> set hs" and "early_rup opts"
  shows "hint_allowed CLAUSE_TSEITIN target
       \<and> (hint_allowed CLAUSE_SKOLEM target \<longleftrightarrow> target = CLAUSE_INPUT)
       \<and> (hint_allowed CLAUSE_ROOT target \<longleftrightarrow> target = CLAUSE_INPUT)
       \<and> (rup_derivation opts cs s hs = Conflict k s'
            \<and> \<not> list_all (hint_legal cs target) (take k hs)
            \<longrightarrow> rup_run opts cs target s (hint_tokens hs rest) = Inl IncompatibleHintType)
       \<and> (rup_run opts cs target s (hint_tokens hs rest) = Inr r
            \<longrightarrow> (\<exists>k s'. rup_derivation opts cs s hs = Conflict k s'
                  \<and> list_all (hint_legal cs target) (take k hs)))"
proof -
  have run: "rup_run opts cs target s (hint_tokens hs rest) =
             rup_verdict opts cs target True hs rest (rup_derivation opts cs s hs)"
    using assms(1) by (simp add: rup_run_def rup_loop_char)
  have illegal: "rup_derivation opts cs s hs = Conflict k s'
            \<and> \<not> list_all (hint_legal cs target) (take k hs)
            \<longrightarrow> rup_run opts cs target s (hint_tokens hs rest) = Inl IncompatibleHintType"
    unfolding run using assms(2) by (auto simp: rup_verdict_def)
  have success: "rup_run opts cs target s (hint_tokens hs rest) = Inr r
            \<longrightarrow> (\<exists>k s'. rup_derivation opts cs s hs = Conflict k s'
                  \<and> list_all (hint_legal cs target) (take k hs))"
    unfolding run
    by (cases "rup_derivation opts cs s hs") (auto simp: rup_verdict_def split: if_splits)
  show ?thesis
    using illegal success by simp
qed

theorem hint_types_enforced_witness:
  "0 \<notin> set [1 :: int] \<and> early_rup default_options
   \<and> rup_derivation default_options cnf_two_units
         \<lparr> lset_generation = 1, lset_array = [- 1, 0] \<rparr> [1]
       = Conflict 1 \<lparr> lset_generation = 1, lset_array = [- 1, 0] \<rparr>
   \<and> hint_legal cnf_two_units CLAUSE_STRUCTURAL 1 = False
   \<and> rup_run default_options cnf_two_units CLAUSE_STRUCTURAL
         \<lparr> lset_generation = 1, lset_array = [- 1, 0] \<rparr> (hint_tokens [1] [TOK_EOL])
       = Inl IncompatibleHintType"
proof -
  have a: "0 \<notin> set [1 :: int]" by simp
  have b: "early_rup default_options" by (simp add: default_options_def)
  have d: "rup_derivation default_options cnf_two_units
         \<lparr> lset_generation = 1, lset_array = [- 1, 0] \<rparr> [1]
       = Conflict 1 \<lparr> lset_generation = 1, lset_array = [- 1, 0] \<rparr>"
    by (simp add: cnf_two_units_def eval_defs)
  have l: "hint_legal cnf_two_units CLAUSE_STRUCTURAL 1 = False"
    by (simp add: cnf_two_units_def hint_legal_def eval_defs)
  from hint_types_enforced [OF a b, where cs = cnf_two_units and target = CLAUSE_STRUCTURAL
      and s = "\<lparr> lset_generation = 1, lset_array = [- 1, 0] \<rparr>" and rest = "[TOK_EOL]"
      and s' = "\<lparr> lset_generation = 1, lset_array = [- 1, 0] \<rparr>" and k = 1]
  have "rup_run default_options cnf_two_units CLAUSE_STRUCTURAL
         \<lparr> lset_generation = 1, lset_array = [- 1, 0] \<rparr> (hint_tokens [1] [TOK_EOL])
       = Inl IncompatibleHintType"
    using d l by simp
  with a b d l show ?thesis by blast
qed

subsection \<open>Sorted integer lists\<close>









subsection \<open>The children loop of a product node\<close>

lemma node_update_fields [simp]:
  "store (node_update st nid f) = store st"
  "is_pkc (node_update st nid f) = is_pkc st"
  "show_variables (node_update st nid f) = show_variables st"
  "declared_root (node_update st nid f) = declared_root st"
  "lit_set (node_update st nid f) = lit_set st"
  "toks (node_update st nid f) = toks st"
  "root_clause_added (node_update st nid f) = root_clause_added st"
  "node_index (node_update st nid f) c = node_index st c"
  "node_asize (node_update st nid f) = node_asize st"
  "show_variable (node_update st nid f) v = show_variable st v"
  by (simp_all add: node_update_def node_index_def node_asize_def show_variable_def)

lemma node_at_update_same:
  "0 \<le> node_index st nid \<Longrightarrow> node_index st nid < node_asize st \<Longrightarrow>
   node_at (node_update st nid f) nid = f (node_at st nid)"
  by (simp add: node_at_def node_update_def node_asize_def node_index_def)

lemma node_find_update_other:
  "c \<noteq> nid \<Longrightarrow> 0 \<le> node_index st nid \<Longrightarrow>
   node_find (node_update st nid f) c = node_find st c"
proof -
  assume "c \<noteq> nid" and "0 \<le> node_index st nid"
  then have "0 \<le> node_index st c \<Longrightarrow> nat (node_index st nid) \<noteq> nat (node_index st c)"
    by (auto simp: node_index_def)
  then show ?thesis
    by (auto simp: node_find_def Let_def node_update_def node_index_def node_asize_def)
qed

lemma node_find_same:
  "0 \<le> node_index st nid \<Longrightarrow> node_index st nid < node_asize st \<Longrightarrow>
   node_find st nid = Some (node_at st nid)"
  by (simp add: node_find_def node_at_def Let_def)






lemma children_update [simp]:
  "literal_children (node_update st nid f) kids = literal_children st kids"
  "node_children (node_update st nid f) kids = node_children st kids"
  by (simp_all add: literal_children_def node_children_def)


subsection \<open>Product nodes and their dependency sets\<close>



lemma node_grow_size:
  "input_variable_count (store st) < ident \<Longrightarrow>
   0 \<le> node_index (node_grow st ident) ident \<and> node_index (node_grow st ident) ident < node_asize (node_grow st ident)"
  by (auto simp: node_grow_def Let_def node_index_def node_asize_def MIN_SIZE_def)










lemma nodes_sorted_cong:
  "node_list st' = node_list st \<Longrightarrow> nodes_sorted st' = nodes_sorted st"
  by (simp add: nodes_sorted_def)



















subsection \<open>Sum nodes and mutual exclusion\<close>

lemma lset_clear_wf:
  assumes "lset_wf s"
  shows "0 < lset_generation (lset_clear s)" "lset_get_lit v (lset_clear s) = 0"
proof -
  let ?g = "lset_generation s"
  from assms have g: "0 \<le> ?g" "?g \<le> 2147483647"
    and e: "\<forall>e \<in> set (lset_array s). \<bar>e\<bar> \<le> ?g"
    by (simp_all add: lset_wf_def INT_MAX_def)
  show "0 < lset_generation (lset_clear s)"
  proof (cases "?g = 2147483647")
    case True
    then show ?thesis by (simp add: lset_clear_def wrap32_def Let_def)
  next
    case False
    with g have "wrap32 (?g + 1) = ?g + 1" by (simp add: wrap32_def)
    with g show ?thesis by (simp add: lset_clear_def Let_def)
  qed
  show "lset_get_lit v (lset_clear s) = 0"
  proof (cases "?g = 2147483647")
    case True
    note full = this
    show ?thesis
    proof (cases "0 < v \<and> v \<le> int (length (lset_array s))")
      case True
      then have "replicate (length (lset_array s)) (0::int) ! nat (v - 1) = 0"
        by (intro nth_replicate) arith
      with full show ?thesis
        by (simp add: lset_clear_def wrap32_def Let_def lset_get_lit_def lset_asize_def)
    next
      case False
      with full show ?thesis
        by (auto simp: lset_clear_def wrap32_def Let_def lset_get_lit_def lset_asize_def)
    qed
  next
    case False
    with g have w: "wrap32 (?g + 1) = ?g + 1" by (simp add: wrap32_def)
    have "lset_array s ! nat (v - 1) \<noteq> ?g + 1 \<and> lset_array s ! nat (v - 1) \<noteq> - (?g + 1)"
      if "0 < v" "v \<le> int (length (lset_array s))"
    proof -
      from that have "lset_array s ! nat (v - 1) \<in> set (lset_array s)" by simp
      with e have "\<bar>lset_array s ! nat (v - 1)\<bar> \<le> ?g" by blast
      then show ?thesis by arith
    qed
    then show ?thesis
      using g w by (auto simp: lset_clear_def Let_def lset_get_lit_def lset_asize_def)
  qed
qed

lemma lset_add_lit_zero: "lset_add_lit 0 s = Inl MemoryFault"
  by (simp add: lset_add_lit_def IABS_def lset_check_size_def lset_asize_def lset_get_lit_def
      Let_def)

lemma lset_add_lit_generation:
  "lset_add_lit lit s = Inr (b, s') \<Longrightarrow> 0 < lset_generation s \<Longrightarrow> 0 < lset_generation s'"
  by (auto simp: lset_add_lit_def Let_def lset_check_size_generation split: if_splits)

lemma lset_pair:
  assumes "lset_wf s0"
    and a: "lset_add_lit a (lset_clear s0) = Inr (b1, s1)"
    and b: "lset_add_lit b s1 = Inr (b2, s2)"
  shows "lset_get_lit (IABS a) s2 = a"
    and "b \<noteq> - a \<Longrightarrow> lset_get_lit (IABS b) s2 = b"
    and "v \<noteq> IABS a \<Longrightarrow> v \<noteq> IABS b \<Longrightarrow> lset_get_lit v s2 = 0"
proof -
  let ?c = "lset_clear s0"
  have az: "a \<noteq> 0" using a by (auto simp: lset_add_lit_zero)
  have bz: "b \<noteq> 0" using b by (auto simp: lset_add_lit_zero)
  have gc: "0 < lset_generation ?c" and ec: "\<And>v. lset_get_lit v ?c = 0"
    using assms(1) by (simp_all add: lset_clear_wf)
  from lset_add_lit_effect [OF az gc] a have
    b1: "b1 = False \<longleftrightarrow> lset_get_lit (IABS a) ?c = - a"
    and a1: "b1 \<longrightarrow> lset_get_lit (IABS a) s1 = a
              \<and> (\<forall>v. v \<noteq> IABS a \<longrightarrow> lset_get_lit v s1 = lset_get_lit v ?c)"
    by auto
  from b1 az have "b1" by (simp add: ec)
  with a1 have s1a: "lset_get_lit (IABS a) s1 = a"
    and s1o: "\<And>v. v \<noteq> IABS a \<Longrightarrow> lset_get_lit v s1 = 0"
    by (simp_all add: ec)
  have g1: "0 < lset_generation s1" using a gc by (rule lset_add_lit_generation)
  from lset_add_lit_effect [OF bz g1] b have
    b2: "b2 = False \<longleftrightarrow> lset_get_lit (IABS b) s1 = - b"
    and n2: "\<not> b2 \<longrightarrow> (\<forall>v. lset_get_lit v s2 = lset_get_lit v s1)"
    and a2: "b2 \<longrightarrow> lset_get_lit (IABS b) s2 = b
              \<and> (\<forall>v. v \<noteq> IABS b \<longrightarrow> lset_get_lit v s2 = lset_get_lit v s1)"
    by auto
  have abs_eq: "IABS a = IABS b \<longleftrightarrow> b = a \<or> b = - a" by (auto simp: IABS_def)
  show "lset_get_lit (IABS a) s2 = a"
  proof (cases b2)
    case True
    with a2 show ?thesis using s1a abs_eq b2 by (cases "IABS a = IABS b") auto
  next
    case False
    with n2 s1a show ?thesis by simp
  qed
  show "lset_get_lit (IABS b) s2 = b" if "b \<noteq> - a"
  proof -
    have "lset_get_lit (IABS b) s1 \<noteq> - b"
    proof (cases "IABS a = IABS b")
      case True
      with that abs_eq have "b = a" by simp
      with s1a az show ?thesis by simp
    next
      case False
      then have "lset_get_lit (IABS b) s1 = 0" using s1o [of "IABS b"] by simp
      with bz show ?thesis by simp
    qed
    with b2 have b2 by simp
    with a2 show ?thesis by simp
  qed
  show "lset_get_lit v s2 = 0" if "v \<noteq> IABS a" "v \<noteq> IABS b"
    using that n2 a2 s1o [of v] by (cases b2) simp_all
qed


lemma sum_child_frame:
  assumes "sum_child st nid local lit = Inr (st2, local2)"
    and "0 \<le> node_index st nid" and "node_index st nid < node_asize st"
  shows "children (node_at st2 nid) = children (node_at st nid) @ [lit]"
    and "store st2 = store st" and "lit_set st2 = lit_set st"
    and "0 \<le> node_index st2 nid" and "node_index st2 nid < node_asize st2"
proof -
  let ?st1 = "node_update st nid (\<lambda>nd. nd \<lparr> children := children nd @ [lit] \<rparr>)"
  from assms(1) have "st2 = ?st1 \<or> (\<exists>d. st2 = node_update ?st1 nid (\<lambda>nd. nd \<lparr> dependency_list := d nd \<rparr>))"
    by (auto simp: sum_child_def Let_def split: if_splits option.splits)
  then have "children (node_at st2 nid) = children (node_at st nid) @ [lit]
     \<and> store st2 = store st \<and> lit_set st2 = lit_set st
     \<and> 0 \<le> node_index st2 nid \<and> node_index st2 nid < node_asize st2"
    using assms(2,3) by (auto simp: node_at_update_same)
  then show "children (node_at st2 nid) = children (node_at st nid) @ [lit]"
    and "store st2 = store st" and "lit_set st2 = lit_set st"
    and "0 \<le> node_index st2 nid" and "node_index st2 nid < node_asize st2"
    by simp_all
qed

lemma sum_children_strict:
  assumes "sum_children False st nid local ts = Inr (st', local', ts')"
    and "0 \<le> node_index st nid" and "node_index st nid < node_asize st"
    and "length (children (node_at st nid)) < 2"
  shows "length (children (node_at st' nid)) = 2 \<and> store st' = store st
     \<and> lit_set st' = lit_set st
     \<and> 0 \<le> node_index st' nid \<and> node_index st' nid < node_asize st'"
  using assms
proof (induction ts arbitrary: st local)
  case Nil
  then show ?case by simp
next
  case (Cons t ts)
  from Cons.prems(1) obtain lit where t: "t = TOK_INT lit" by (cases t) simp_all
  from Cons.prems(1) t obtain st2 local2 where
    step: "sum_child st nid local lit = Inr (st2, local2)"
    by (auto split: sum.splits)
  note fr = sum_child_frame [OF step Cons.prems(2,3)]
  show ?case
  proof (cases "length (children (node_at st2 nid)) = 2")
    case True
    with Cons.prems(1) t step have "st' = st2" by simp
    with True fr show ?thesis by simp
  next
    case False
    with Cons.prems(1) t step have
      rec: "sum_children False st2 nid local2 ts = Inr (st', local', ts')" by simp
    have "length (children (node_at st2 nid)) = length (children (node_at st nid)) + 1"
      by (simp add: fr(1))
    with False Cons.prems(4) have "length (children (node_at st2 nid)) < 2"
      by linarith
    from Cons.IH [OF rec fr(4,5) this] fr show ?thesis by simp
  qed
qed

lemma node_new_store:
  assumes "node_new st ty nid cid = Inr st1"
  shows "clause_blocks (store st1) = clause_blocks (store st)"
    and "chunk_set (store st1) = chunk_set (store st)"
    and "lit_set st1 = lit_set st"
    and "0 \<le> node_index st1 nid" and "node_index st1 nid < node_asize st1"
proof -
  from assms have gt: "input_variable_count (store st) < nid"
    by (auto simp: node_new_def split: if_splits)
  from assms gt have st1: "st1 = (node_update (node_grow st nid) nid
        (\<lambda>nd. nd \<lparr> node_type := ty, node_cid := cid, ring_value := None \<rparr>))
        \<lparr> node_count := node_count (node_grow st nid) + 1 \<rparr>"
    by (auto simp: node_new_def split: if_splits option.splits)
  show "clause_blocks (store st1) = clause_blocks (store st)"
    and "chunk_set (store st1) = chunk_set (store st)"
    and "lit_set st1 = lit_set st"
    by (simp_all add: st1 node_grow_def Let_def)
  show "0 \<le> node_index st1 nid" and "node_index st1 nid < node_asize st1"
    using node_grow_size [OF gt]
    by (simp_all add: st1 node_index_def node_asize_def node_update_def)
qed

lemma sum_parse_strict:
  assumes "sum_parse st cid False = Inr (st1, nid, ts1)"
  shows "length (children (node_at st1 nid)) = 2"
    and "clause_blocks (store st1) = clause_blocks (store st)"
    and "chunk_set (store st1) = chunk_set (store st)"
    and "lit_set st1 = lit_set st"
proof -
  let ?reset = "\<lambda>nd. nd \<lparr> children := [], dependency_list := [] \<rparr>"
  from assms obtain ts0 st0 st2 local where
    n: "node_new st NODE_SUM nid cid = Inr st0"
    and c: "sum_children False (node_update st0 nid ?reset) nid [] ts0 = Inr (st2, local, ts1)"
    and st1: "st1 = (if length local > 0
               then node_update st2 nid (\<lambda>nd. nd \<lparr> dependency_list :=
                      ilist_union (dependency_list nd) (ilist_sort local) \<rparr>)
               else st2)"
    by (auto simp: sum_parse_def ebind_def split: prod.splits token.splits sum.splits)
  note ns = node_new_store [OF n]
  let ?r = "node_update st0 nid ?reset"
  have idx: "0 \<le> node_index ?r nid" "node_index ?r nid < node_asize ?r"
    using ns(4,5) by simp_all
  have "length (children (node_at ?r nid)) < 2"
    using ns(4,5) by (simp add: node_at_update_same)
  from sum_children_strict [OF c idx this] have
    k: "length (children (node_at st2 nid)) = 2" "store st2 = store ?r"
      "lit_set st2 = lit_set ?r" "0 \<le> node_index st2 nid" "node_index st2 nid < node_asize st2"
    by simp_all
  show "length (children (node_at st1 nid)) = 2"
    using k(1,4,5) by (simp add: st1 node_at_update_same)
  show "clause_blocks (store st1) = clause_blocks (store st)"
    and "chunk_set (store st1) = chunk_set (store st)"
    and "lit_set st1 = lit_set st"
    using k(2,3) ns(1,2,3) by (simp_all add: st1)
qed


text \<open>
  Claim C3.  When the strict command \<^verbatim>\<open>s\<close> is accepted, the node has exactly two
  children \<open>a\<close> and \<open>b\<close>; the RUP check ran on a literal set that holds \<open>a\<close> and \<open>b\<close>
  (only \<open>a\<close> when \<open>b\<close> is its complement) and nothing else, with the target type
  structural, against a clause store that still holds exactly the clauses it held
  before the command, and it succeeded; the three defining clauses
  \<open>(\<not>n \<or> a \<or> b)\<close>, \<open>(n \<or> \<not>a)\<close>, \<open>(n \<or> \<not>b)\<close> were stored after it, with the ids
  \<open>cid\<close>, \<open>cid + 1\<close>, \<open>cid + 2\<close>.  When the check fails, the command fails with the
  same error and no state is returned: nothing has been stored.
\<close>

theorem cpog_add_sum_mutex_first:
  assumes "lset_wf (lit_set st)"
  shows "(cpog_add_sum opts st cid False = Inr st' \<longrightarrow>
           (\<exists>st1 nid ts1 a b s s2 ts2.
              sum_parse st cid False = Inr (st1, nid, ts1)
            \<and> children (node_at st1 nid) = [a, b]
            \<and> clause_blocks (store st1) = clause_blocks (store st)
            \<and> chunk_set (store st1) = chunk_set (store st)
            \<and> lset_get_lit (IABS a) s = a
            \<and> (b \<noteq> - a \<longrightarrow> lset_get_lit (IABS b) s = b)
            \<and> (\<forall>v. v \<noteq> IABS a \<and> v \<noteq> IABS b \<longrightarrow> lset_get_lit v s = 0)
            \<and> rup_run opts (store st1) CLAUSE_STRUCTURAL s ts1 = Inr (s2, ts2)
            \<and> ebind (store_clause (store st1) cid [- nid, a, b] CLAUSE_TSEITIN) (\<lambda>cs1.
               ebind (store_clause cs1 (cid + 1) [nid, - a] CLAUSE_TSEITIN) (\<lambda>cs2.
               store_clause cs2 (cid + 1 + 1) [nid, - b] CLAUSE_TSEITIN)) = Inr (store st')))
       \<and> (\<forall>st1 nid ts1 e.
             sum_parse st cid False = Inr (st1, nid, ts1) \<and> sum_mutex opts st1 nid ts1 = Inl e
             \<longrightarrow> cpog_add_sum opts st cid False = Inl e)"
proof (intro conjI impI allI)
  assume ok: "cpog_add_sum opts st cid False = Inr st'"
  then obtain st1 nid ts1 s2 ts2 where
    p: "sum_parse st cid False = Inr (st1, nid, ts1)"
    and m: "sum_mutex opts st1 nid ts1 = Inr (s2, ts2)"
    and c: "sum_clauses (st1 \<lparr> lit_set := s2 \<rparr>) nid cid ts2 = Inr st'"
    by (auto simp: cpog_add_sum_def ebind_def split: sum.splits prod.splits)
  note sp = sum_parse_strict [OF p]
  from sp(1) obtain a b where kids: "children (node_at st1 nid) = [a, b]"
    by (cases "children (node_at st1 nid)"; cases "tl (children (node_at st1 nid))") auto
  from m kids obtain b1 sa b2 s where
    la: "lset_add_lit a (lset_clear (lit_set st1)) = Inr (b1, sa)"
    and lb: "lset_add_lit b sa = Inr (b2, s)"
    and r: "rup_run opts (store st1) CLAUSE_STRUCTURAL s ts1 = Inr (s2, ts2)"
    by (auto simp: sum_mutex_def ebind_def split: sum.splits prod.splits)
  have wf: "lset_wf (lit_set st1)" using assms by (simp add: sp(4))
  note pr = lset_pair [OF wf la lb]
  have at: "node_at (st1 \<lparr> lit_set := s2 \<rparr>) nid = node_at st1 nid"
    by (simp add: node_at_def node_index_def)
  from c have cl: "ebind (store_clause (store st1) cid [- nid, a, b] CLAUSE_TSEITIN) (\<lambda>cs1.
               ebind (store_clause cs1 (cid + 1) [nid, - a] CLAUSE_TSEITIN) (\<lambda>cs2.
               store_clause cs2 (cid + 1 + 1) [nid, - b] CLAUSE_TSEITIN)) = Inr (store st')"
    by (auto simp: sum_clauses_def at kids ebind_def Let_def split: sum.splits)
  have "sum_parse st cid False = Inr (st1, nid, ts1)
            \<and> children (node_at st1 nid) = [a, b]
            \<and> clause_blocks (store st1) = clause_blocks (store st)
            \<and> chunk_set (store st1) = chunk_set (store st)
            \<and> lset_get_lit (IABS a) s = a
            \<and> (b \<noteq> - a \<longrightarrow> lset_get_lit (IABS b) s = b)
            \<and> (\<forall>v. v \<noteq> IABS a \<and> v \<noteq> IABS b \<longrightarrow> lset_get_lit v s = 0)
            \<and> rup_run opts (store st1) CLAUSE_STRUCTURAL s ts1 = Inr (s2, ts2)
            \<and> ebind (store_clause (store st1) cid [- nid, a, b] CLAUSE_TSEITIN) (\<lambda>cs1.
               ebind (store_clause cs1 (cid + 1) [nid, - a] CLAUSE_TSEITIN) (\<lambda>cs2.
               store_clause cs2 (cid + 1 + 1) [nid, - b] CLAUSE_TSEITIN)) = Inr (store st')"
    using p kids sp(2,3) pr r cl by simp
  then show "\<exists>st1 nid ts1 a b s s2 ts2.
              sum_parse st cid False = Inr (st1, nid, ts1)
            \<and> children (node_at st1 nid) = [a, b]
            \<and> clause_blocks (store st1) = clause_blocks (store st)
            \<and> chunk_set (store st1) = chunk_set (store st)
            \<and> lset_get_lit (IABS a) s = a
            \<and> (b \<noteq> - a \<longrightarrow> lset_get_lit (IABS b) s = b)
            \<and> (\<forall>v. v \<noteq> IABS a \<and> v \<noteq> IABS b \<longrightarrow> lset_get_lit v s = 0)
            \<and> rup_run opts (store st1) CLAUSE_STRUCTURAL s ts1 = Inr (s2, ts2)
            \<and> ebind (store_clause (store st1) cid [- nid, a, b] CLAUSE_TSEITIN) (\<lambda>cs1.
               ebind (store_clause cs1 (cid + 1) [nid, - a] CLAUSE_TSEITIN) (\<lambda>cs2.
               store_clause cs2 (cid + 1 + 1) [nid, - b] CLAUSE_TSEITIN)) = Inr (store st')"
    by blast
next
  fix st1 nid ts1 e
  assume "sum_parse st cid False = Inr (st1, nid, ts1) \<and> sum_mutex opts st1 nid ts1 = Inl e"
  then show "cpog_add_sum opts st cid False = Inl e"
    by (simp add: cpog_add_sum_def ebind_def)
qed


lemma mutex_sum_accepted:
  "\<exists>st'. cpog_add_sum default_options mutex_sum_state 5 False = Inr st'"
  by (simp add: cpog_add_sum_def sum_parse_def sum_mutex_def sum_clauses_def sum_child_def
      node_new_def node_grow_def node_find_def node_index_def node_asize_def node_update_def
      node_at_def empty_node_def mutex_sum_state_def pog_unit_state_def pog_unit_store_def
      token_confirm_eol_def ilist_sort_def store_clause_def start_clause_def
      clause_add_literal_def finish_clause_def push_slots_def CHUNK_SIZE_def MAX_GAP_def
      null_slot_def eval_defs)

theorem cpog_add_sum_mutex_first_witness:
  "lset_wf (lit_set mutex_sum_state)
   \<and> (\<exists>st' st1 ts1 s s2 ts2.
         cpog_add_sum default_options mutex_sum_state 5 False = Inr st'
       \<and> sum_parse mutex_sum_state 5 False = Inr (st1, 3, ts1)
       \<and> rup_run default_options (store st1) CLAUSE_STRUCTURAL s ts1 = Inr (s2, ts2))"
proof -
  have wf: "lset_wf (lit_set mutex_sum_state)"
    by (simp add: lset_wf_def mutex_sum_state_def pog_unit_state_def INT_MAX_def)
  obtain st' where ok: "cpog_add_sum default_options mutex_sum_state 5 False = Inr st'"
    using mutex_sum_accepted by blast
  have nid: "sum_parse mutex_sum_state 5 False = Inr (st1, nid, ts1) \<Longrightarrow> nid = 3"
    for st1 nid ts1
    by (auto simp: sum_parse_def ebind_def mutex_sum_state_def pog_unit_state_def
        split: sum.splits prod.splits)
  from cpog_add_sum_mutex_first [OF wf, of default_options 5 st', THEN conjunct1] ok nid
  show ?thesis using wf by blast
qed

subsection \<open>Counting\<close>

lemma count_show_eq:
  "\<forall>v \<in> set vs. show_variable st v \<noteq> None \<Longrightarrow>
   count_show st n vs
     = Inr (n + int (length (filter (\<lambda>v. show_variable st v = Some True) vs)))"
  by (induction vs arbitrary: n) (auto split: option.splits)

lemma q25_scale_pow2: "q25_scale d (int k) 0 = d * 2 ^ k"
  by (simp add: q25_scale_def pow_int_def)

lemma q25_half: "q25_scale (q25_from_32 1) (- 1) 0 = 1 / 2"
  by (simp add: q25_scale_def pow_int_def q25_from_32_def)

lemma count_regular_scaled:
  assumes "0 \<le> input_variable_count (store st)"
    and "is_pkc st \<longrightarrow> input_variable_count (store st) \<le> int (length (show_variables st))"
  shows "count_regular st =
     ebind (ring_evaluate st (replicate (nat (input_variable_count (store st))) (1 / 2)))
       (\<lambda>(st1, density). Inr (st1, density * 2 ^ data_variable_count st))"
proof (cases "is_pkc st")
  case True
  with assms(2) have "\<forall>v \<in> set [1 .. input_variable_count (store st)]. show_variable st v \<noteq> None"
    by (auto simp: show_variable_def)
  from count_show_eq [OF this, of 0] True show ?thesis
    by (simp add: count_regular_def ebind_def q25_half data_variable_count_def q25_scale_pow2
        split: sum.splits prod.splits)
next
  case False
  have "q25_scale d (input_variable_count (store st)) 0
      = d * 2 ^ nat (input_variable_count (store st))" for d
    using assms(1) q25_scale_pow2 [of d "nat (input_variable_count (store st))"] by simp
  with False show ?thesis
    by (simp add: count_regular_def ebind_def q25_half data_variable_count_def
        split: sum.splits prod.splits)
qed




lemma same_pog_refl: "same_pog st st"
  by (simp add: same_pog_def)

lemma same_pog_find:
  assumes "same_pog st0 st" and "node_find st0 c = Some nd0"
  shows "\<exists>nd. node_find st c = Some nd \<and> node_type nd = node_type nd0
            \<and> children nd = children nd0"
  using assms
  by (auto simp: same_pog_def node_find_def node_index_def node_asize_def Let_def
      split: if_splits)

lemma spec_ring_value_sign:
  "spec_ring_value st w lit =
     (if lit < 0 then 1 - spec_ring_value st w (IABS lit) else spec_ring_value st w (IABS lit))"
proof -
  have "IABS (IABS lit) = IABS lit" "\<not> IABS lit < 0" by (auto simp: IABS_def)
  then show ?thesis
    by (subst spec_ring_value.simps, subst (2 3) spec_ring_value.simps) (simp add: Let_def)
qed

lemma eval_children_acc:
  assumes "\<forall>c \<in> set cs. child_value st w c = Inr (f c)"
  shows "eval_children st w ty val cs
       = Inr (if ty = NODE_PRODUCT then val * prod_list (map f cs)
              else val + sum_list (map f cs))"
  using assms
  by (induction cs arbitrary: val) (auto simp: q25_mul_def q25_add_def algebra_simps)




lemma evaluable_node:
  assumes "evaluable st0" and "input_variable_count (store st0) < ident"
    and "ident \<le> declared_root st0"
  shows "\<exists>nd. node_find st0 ident = Some nd \<and> node_type nd \<noteq> NODE_NONE
           \<and> (\<forall>c \<in> set (children nd). c \<noteq> 0 \<and> IABS c < ident)"
proof -
  from assms(2,3) have "ident \<in> set [input_variable_count (store st0) + 1 .. declared_root st0]"
    by simp
  with assms(1) have "case node_find st0 ident of
              None \<Rightarrow> False
            | Some nd \<Rightarrow>
                node_type nd \<noteq> NODE_NONE
                \<and> (\<forall>c \<in> set (children nd). c \<noteq> 0 \<and> IABS c < ident)"
    unfolding evaluable_def by blast
  then show ?thesis by (cases "node_find st0 ident") auto
qed

lemma child_value_spec:
  assumes sp: "same_pog st0 st" and cp: "computed st0 wt st ident"
    and wts: "\<forall>v. 1 \<le> v \<and> v \<le> input_variable_count (store st0) \<longrightarrow> input_weight w v = Some (wt v)"
    and c: "c \<noteq> 0" "IABS c < ident"
  shows "child_value st w c = Inr (spec_ring_value st0 wt c)"
proof (cases "IABS c \<le> input_variable_count (store st0)")
  case True
  from c(1) have "1 \<le> IABS c" by (auto simp: IABS_def)
  with True wts have iw: "input_weight w (IABS c) = Some (wt (IABS c))" by simp
  have st: "store st = store st0" using sp by (simp add: same_pog_def)
  have "spec_ring_value st0 wt c = (if c < 0 then 1 - wt (IABS c) else wt (IABS c))"
    using True by (subst spec_ring_value.simps) (simp add: Let_def)
  then show ?thesis
    using True iw by (simp add: child_value_def Let_def st ebind_def q25_one_minus_def)
next
  case False
  then have "input_variable_count (store st0) < IABS c" by simp
  with cp c(2) obtain nd where nd: "node_find st (IABS c) = Some nd"
    "ring_value nd = Some (spec_ring_value st0 wt (IABS c))"
    unfolding computed_def by blast
  have st: "store st = store st0" using sp by (simp add: same_pog_def)
  show ?thesis
    using False nd spec_ring_value_sign [of st0 wt c]
    by (simp add: child_value_def Let_def st ebind_def q25_one_minus_def)
qed

lemma eval_node_spec:
  assumes ev: "evaluable st0" and sp: "same_pog st0 st" and cp: "computed st0 wt st ident"
    and rng: "input_variable_count (store st0) < ident" "ident \<le> declared_root st0"
    and wts: "\<forall>v. 1 \<le> v \<and> v \<le> input_variable_count (store st0) \<longrightarrow> input_weight w v = Some (wt v)"
  shows "eval_node st w ident
       = Inr (node_update st ident (\<lambda>nd. nd \<lparr> ring_value := Some (spec_ring_value st0 wt ident) \<rparr>),
              spec_ring_value st0 wt ident)"
proof -
  from evaluable_node [OF ev rng] obtain nd0 where
    nd0: "node_find st0 ident = Some nd0" "node_type nd0 \<noteq> NODE_NONE"
      "\<forall>c \<in> set (children nd0). c \<noteq> 0 \<and> IABS c < ident"
    by blast
  from same_pog_find [OF sp nd0(1)] obtain nd where
    nd: "node_find st ident = Some nd" "node_type nd = node_type nd0"
      "children nd = children nd0"
    by blast
  have cv: "\<forall>c \<in> set (children nd0). child_value st w c = Inr (spec_ring_value st0 wt c)"
    using nd0(3) child_value_spec [OF sp cp wts] by blast
  have pos: "IABS ident = ident" "\<not> ident < 0" "\<not> ident \<le> input_variable_count (store st0)"
    using rng(1) ev by (auto simp: IABS_def evaluable_def)
  have mapeq: "map (\<lambda>c. if IABS c < ident then spec_ring_value st0 wt c else 0) (children nd0)
      = map (spec_ring_value st0 wt) (children nd0)"
    using nd0(3) by (intro map_cong) auto
  have spec: "spec_ring_value st0 wt ident =
      (case node_type nd0 of
         NODE_PRODUCT \<Rightarrow> prod_list (map (spec_ring_value st0 wt) (children nd0))
       | NODE_SUM \<Rightarrow> sum_list (map (spec_ring_value st0 wt) (children nd0))
       | NODE_SKOLEM \<Rightarrow> 1
       | NODE_NONE \<Rightarrow> 0)"
    by (subst spec_ring_value.simps) (simp add: Let_def pos nd0(1) mapeq split: node_type.splits)
  show ?thesis
  proof (cases "node_type nd0")
    case NODE_PRODUCT
    then show ?thesis
      using nd spec eval_children_acc [OF cv, of NODE_PRODUCT "q25_from_32 1"]
      by (simp add: eval_node_def ebind_def q25_from_32_def)
  next
    case NODE_SKOLEM
    then show ?thesis
      using nd spec by (simp add: eval_node_def ebind_def q25_from_32_def)
  next
    case NODE_SUM
    then show ?thesis
      using nd spec eval_children_acc [OF cv, of NODE_SUM "q25_from_32 0"]
      by (simp add: eval_node_def ebind_def q25_from_32_def)
  next
    case NODE_NONE
    with nd0(2) show ?thesis by simp
  qed
qed

lemma same_pog_ring_update:
  "same_pog st0 st \<Longrightarrow> same_pog st0 (node_update st ident (\<lambda>nd. nd \<lparr> ring_value := x \<rparr>))"
proof (cases "nat (node_index st ident) < length (node_list st)")
  case True
  assume "same_pog st0 st"
  with True show ?thesis
    by (auto simp: same_pog_def node_update_def nth_list_update)
next
  case False
  assume "same_pog st0 st"
  with False show ?thesis
    by (simp add: same_pog_def node_update_def)
qed

lemma computed_step:
  assumes sp: "same_pog st0 st" and cp: "computed st0 wt st ident"
    and rng: "input_variable_count (store st0) < ident"
    and nd: "node_find st ident = Some nd"
  shows "computed st0 wt
           (node_update st ident (\<lambda>nd. nd \<lparr> ring_value := Some (spec_ring_value st0 wt ident) \<rparr>))
           (ident + 1)"
proof -
  have st: "store st = store st0" using sp by (simp add: same_pog_def)
  have idx: "0 \<le> node_index st ident" "node_index st ident < node_asize st"
    using nd by (auto simp: node_find_def Let_def split: if_splits)
  show ?thesis
    unfolding computed_def
  proof (intro allI impI)
    fix c
    assume c: "input_variable_count (store st0) < c \<and> c < ident + 1"
    show "\<exists>nd. node_find (node_update st ident
               (\<lambda>nd. nd \<lparr> ring_value := Some (spec_ring_value st0 wt ident) \<rparr>)) c = Some nd
            \<and> ring_value nd = Some (spec_ring_value st0 wt c)"
    proof (cases "c = ident")
      case True
      have "node_find (node_update st ident
               (\<lambda>nd. nd \<lparr> ring_value := Some (spec_ring_value st0 wt ident) \<rparr>)) ident
          = Some ((node_at st ident) \<lparr> ring_value := Some (spec_ring_value st0 wt ident) \<rparr>)"
        using idx by (simp add: node_find_same node_at_update_same)
      with True show ?thesis by simp
    next
      case False
      with c have "c < ident" by simp
      with cp c obtain x where "node_find st c = Some x"
        "ring_value x = Some (spec_ring_value st0 wt c)"
        unfolding computed_def by blast
      with False idx show ?thesis by (simp add: node_find_update_other)
    qed
  qed
qed

lemma eval_loop_spec:
  assumes ev: "evaluable st0"
    and wts: "\<forall>v. 1 \<le> v \<and> v \<le> input_variable_count (store st0) \<longrightarrow> input_weight w v = Some (wt v)"
  shows "same_pog st0 st \<Longrightarrow> computed st0 wt st k \<Longrightarrow>
     input_variable_count (store st0) < k \<Longrightarrow>
     \<exists>st'. eval_loop st w val [k .. declared_root st0]
        = Inr (st', if k \<le> declared_root st0
                    then Some (spec_ring_value st0 wt (declared_root st0)) else val)"
proof (induction "nat (declared_root st0 + 1 - k)" arbitrary: k st val)
  case 0
  then have "[k .. declared_root st0] = []" by simp
  with 0 show ?case by simp
next
  case (Suc n)
  then have le: "k \<le> declared_root st0" by simp
  then have up: "[k .. declared_root st0] = k # [k + 1 .. declared_root st0]"
    by (simp add: upto_rec1)
  let ?st1 = "node_update st k (\<lambda>nd. nd \<lparr> ring_value := Some (spec_ring_value st0 wt k) \<rparr>)"
  have en: "eval_node st w k = Inr (?st1, spec_ring_value st0 wt k)"
    using eval_node_spec [OF ev Suc.prems(1,2) Suc.prems(3) le wts] .
  from evaluable_node [OF ev Suc.prems(3) le] obtain nd0 where "node_find st0 k = Some nd0"
    by blast
  from same_pog_find [OF Suc.prems(1) this] obtain nd where nd: "node_find st k = Some nd"
    by blast
  have sp1: "same_pog st0 ?st1" using Suc.prems(1) by (rule same_pog_ring_update)
  have cp1: "computed st0 wt ?st1 (k + 1)"
    using computed_step [OF Suc.prems(1,2,3) nd] .
  have n: "n = nat (declared_root st0 + 1 - (k + 1))" using Suc.hyps(2) by simp
  have gt: "input_variable_count (store st0) < k + 1" using Suc.prems(3) by simp
  from Suc.hyps(1) [OF n sp1 cp1 gt, of "Some (spec_ring_value st0 wt k)"]
  obtain st' where r: "eval_loop ?st1 w (Some (spec_ring_value st0 wt k)) [k + 1 .. declared_root st0]
        = Inr (st', if k + 1 \<le> declared_root st0
                    then Some (spec_ring_value st0 wt (declared_root st0))
                    else Some (spec_ring_value st0 wt k))"
    by blast
  have "(if k + 1 \<le> declared_root st0
                    then Some (spec_ring_value st0 wt (declared_root st0))
                    else Some (spec_ring_value st0 wt k))
      = Some (spec_ring_value st0 wt (declared_root st0))"
    using le by (cases "k = declared_root st0") auto
  with r en up le show ?case by simp
qed

lemma ring_evaluate_spec:
  assumes ev: "evaluable st"
    and wts: "\<forall>v. 1 \<le> v \<and> v \<le> input_variable_count (store st) \<longrightarrow> input_weight w v = Some (wt v)"
  shows "\<exists>st'. ring_evaluate st w = Inr (st', spec_ring_value st wt (declared_root st))"
proof -
  have cp: "computed st wt st (input_variable_count (store st) + 1)"
    by (auto simp: computed_def)
  have "input_variable_count (store st) < input_variable_count (store st) + 1" by simp
  from eval_loop_spec [OF ev wts same_pog_refl cp this, of None]
  obtain st' where "eval_loop st w None [input_variable_count (store st) + 1 .. declared_root st]
        = Inr (st', Some (spec_ring_value st wt (declared_root st)))"
    using ev by (auto simp: evaluable_def)
  moreover have "\<not> declared_unsatisfiable st" using ev by (simp add: evaluable_def)
  ultimately show ?thesis
    by (simp add: ring_evaluate_def ebind_def)
qed


text \<open>
  The count on a POG whose ids are in evaluation order (\<open>evaluable\<close>: every id from
  the first node id to the root is a stored node whose children are nonzero literals of
  variables below it).  There \<open>count_regular\<close> returns the ring evaluation of the POG
  with every input variable's weight one half, multiplied by
  \<open>2 ^ data_variable_count\<close>: the number of input variables, or in projected mode the
  number of declared show variables.  The evaluation is the bottom-up loop of
  \<open>ring_evaluate\<close>, and its value at the root is the recursive \<open>spec_ring_value\<close>.
  The node commands do not establish this order; the last subsection has a proof file
  that they accept and that is outside it.
\<close>

lemma count_regular_scaled_half_evaluation:
  assumes "evaluable st"
    and "is_pkc st \<longrightarrow> input_variable_count (store st) \<le> int (length (show_variables st))"
  shows "count_regular st =
           ebind (ring_evaluate st (replicate (nat (input_variable_count (store st))) (1 / 2)))
             (\<lambda>(st1, density). Inr (st1, density * 2 ^ data_variable_count st))
       \<and> (\<exists>st'. count_regular st =
              Inr (st', spec_ring_value st (\<lambda>v. 1 / 2) (declared_root st)
                          * 2 ^ data_variable_count st))"
proof -
  let ?w = "replicate (nat (input_variable_count (store st))) (1 / 2 :: rat)"
  have nn: "0 \<le> input_variable_count (store st)" using assms(1) by (simp add: evaluable_def)
  have eq: "count_regular st =
           ebind (ring_evaluate st ?w)
             (\<lambda>(st1, density). Inr (st1, density * 2 ^ data_variable_count st))"
    using nn assms(2) by (rule count_regular_scaled)
  have wts: "\<forall>v. 1 \<le> v \<and> v \<le> input_variable_count (store st) \<longrightarrow>
      input_weight ?w v = Some ((\<lambda>v. 1 / 2) v)"
    by (auto simp: input_weight_def)
  from ring_evaluate_spec [OF assms(1) wts] obtain st' where
    "ring_evaluate st ?w = Inr (st', spec_ring_value st (\<lambda>v. 1 / 2) (declared_root st))"
    by blast
  then have "count_regular st =
              Inr (st', spec_ring_value st (\<lambda>v. 1 / 2) (declared_root st)
                          * 2 ^ data_variable_count st)"
    by (simp add: eq ebind_def)
  with eq show ?thesis by blast
qed

lemma count_regular_scaled_half_evaluation_witness:
  "evaluable pog_unit_state \<and> \<not> is_pkc pog_unit_state
   \<and> (\<exists>st'. count_regular pog_unit_state = Inr (st', 1))"
proof -
  have V: "input_variable_count (store pog_unit_state) = 1"
    and root: "declared_root pog_unit_state = 2"
    and pkc: "\<not> is_pkc pog_unit_state"
    and unsat: "\<not> declared_unsatisfiable pog_unit_state"
    by (simp_all add: pog_unit_state_def pog_unit_store_def)
  have f2: "node_find pog_unit_state 2 = Some \<lparr> node_type = NODE_PRODUCT, node_id = 2,
      node_cid = 2, dependency_list = [1], children = [1], ring_value = None \<rparr>"
    by (simp add: node_find_def node_index_def node_asize_def V Let_def)
      (simp add: pog_unit_state_def)
  have ev: "evaluable pog_unit_state"
    by (simp add: evaluable_def V root unsat f2 IABS_def)
  have leaf: "spec_ring_value pog_unit_state (\<lambda>v. 1 / 2) 1 = 1 / 2"
    by (subst spec_ring_value.simps) (simp add: Let_def IABS_def V)
  have val: "spec_ring_value pog_unit_state (\<lambda>v. 1 / 2) 2 = 1 / 2"
    by (subst spec_ring_value.simps) (simp add: Let_def IABS_def V f2 leaf)
  have dvc: "data_variable_count pog_unit_state = 1"
    by (simp add: data_variable_count_def pkc V)
  from count_regular_scaled_half_evaluation [of pog_unit_state, THEN conjunct2] ev pkc
  have "\<exists>st'. count_regular pog_unit_state = Inr (st', 1)"
    by (simp add: root val dvc)
  with ev pkc show ?thesis by blast
qed

subsection \<open>Reverse implication\<close>

lemma take_swap_mset:
  assumes "i < n" "j < n" "n \<le> length q"
  shows "mset (take n (q[i := q ! j, j := q ! i])) = mset (take n q)"
proof -
  have "take n (q[i := q ! j, j := q ! i]) = (take n q)[i := take n q ! j, j := take n q ! i]"
    using assms by (simp add: take_update_swap)
  moreover have "mset ((take n q)[i := take n q ! j, j := take n q ! i]) = mset (take n q)"
    using assms by (intro mset_swap) simp_all
  ultimately show ?thesis by simp
qed

lemma sift_up_loop_length [simp]: "length (sift_up_loop q idx) = length q"
  by (induction q idx rule: sift_up_loop.induct) (subst sift_up_loop.simps, simp add: Let_def)

lemma sift_up_loop_mset:
  "idx < n \<Longrightarrow> n \<le> length q \<Longrightarrow> mset (take n (sift_up_loop q idx)) = mset (take n q)"
proof (induction q idx rule: sift_up_loop.induct)
  case (1 q idx)
  show ?case
  proof (cases "idx > 0 \<and> q ! idx < q ! ((idx - 1) div 2)")
    case True
    let ?par = "(idx - 1) div 2"
    have par: "?par < n" using 1(2) by simp
    have "mset (take n (sift_up_loop (q[idx := q ! ?par, ?par := q ! idx]) ?par))
          = mset (take n (q[idx := q ! ?par, ?par := q ! idx]))"
      using True 1(3) par by (intro 1(1)) simp_all
    also have "\<dots> = mset (take n q)"
      using 1(2) par 1(3) by (rule take_swap_mset)
    finally show ?thesis using True by (subst sift_up_loop.simps) (simp add: Let_def)
  next
    case False
    then show ?thesis by (subst sift_up_loop.simps) (auto simp: Let_def)
  qed
qed

lemma sift_down_loop_length [simp]: "length (sift_down_loop q n idx) = length q"
  by (induction q n idx rule: sift_down_loop.induct)
    (subst sift_down_loop.simps, simp add: Let_def)

lemma sift_down_loop_mset:
  "n \<le> length q \<Longrightarrow> mset (take n (sift_down_loop q n idx)) = mset (take n q)"
proof (induction q n idx rule: sift_down_loop.induct)
  case (1 q n idx)
  let ?left = "2 * idx + 1"
  let ?m1 = "if q ! ?left < q ! idx then ?left else idx"
  let ?m2 = "if ?left + 1 < n \<and> q ! (?left + 1) < q ! ?m1 then ?left + 1 else ?m1"
  show ?case
  proof (cases "?left < n \<and> ?m2 \<noteq> idx")
    case True
    then have c1: "?left < n" and c2: "?m2 \<noteq> idx" by blast+
    from True have m2: "?m2 < n" and idx: "idx < n" by (auto split: if_splits)
    have step: "sift_down_loop q n idx
                = sift_down_loop (q[?m2 := q ! idx, idx := q ! ?m2]) n ?m2"
      by (subst sift_down_loop.simps) (simp only: Let_def c1 c2 if_True if_False)
    have "mset (take n (sift_down_loop (q[?m2 := q ! idx, idx := q ! ?m2]) n ?m2))
          = mset (take n (q[?m2 := q ! idx, idx := q ! ?m2]))"
      using c1 c2 1(2) by (intro 1(1)[OF refl _ refl refl refl]) simp_all
    also have "\<dots> = mset (take n q)"
      using m2 idx 1(2) by (rule take_swap_mset)
    finally show ?thesis by (simp only: step)
  next
    case False
    then have "sift_down_loop q n idx = q"
      by (subst sift_down_loop.simps) (auto simp: Let_def)
    then show ?thesis by simp
  qed
qed

lemma queue_length: "prop_ok nvar p \<Longrightarrow> length (queue p) = nat (priority_count p)"
  by (auto simp: prop_ok_def queue_def min_def)

lemma queue_bound:
  assumes ok: "prop_ok nvar p" and v: "counted nvar p v" and nv: "v \<notin> set (queue p)"
  shows "priority_count p < int (length (priority_queue p))"
proof -
  let ?n = "length (node_event_count p)"
  let ?S = "{nvar + 1 .. nvar + int ?n} - {v}"
  have sub: "set (queue p) \<subseteq> ?S"
    using ok nv by (auto simp: prop_ok_def counted_def)
  have "v \<in> {nvar + 1 .. nvar + int ?n}" using v by (simp add: counted_def)
  then have "card ?S = ?n - 1" by (simp add: card_Diff_singleton)
  moreover have "0 < ?n" using v by (cases "node_event_count p") (auto simp: counted_def)
  moreover have "card (set (queue p)) \<le> card ?S" using sub by (intro card_mono) simp_all
  moreover have "card (set (queue p)) = length (queue p)"
    using ok by (simp add: prop_ok_def distinct_card)
  ultimately have "length (queue p) < ?n" by linarith
  then show ?thesis using ok queue_length[OF ok] by (simp add: prop_ok_def)
qed

lemma priority_add_ok:
  assumes ok: "prop_ok nvar p" and v: "counted nvar p var"
    and nvar: "input_variable_count (store (pog d)) = nvar"
  shows "\<exists>p'. priority_add d p var = Inr p' \<and> prop_ok nvar p'
            \<and> length (node_event_count p') = length (node_event_count p)
            \<and> (\<exists>K. mset (queue p') = mset (queue p) + K \<and> set_mset K \<subseteq> {var})"
proof -
  let ?i = "nat (var - nvar - 1)"
  let ?c = "node_event_count p ! ?i"
  have i: "?i < length (node_event_count p)" and i0: "0 \<le> var - nvar - 1"
    using v by (auto simp: counted_def)
  have rd: "at_index (node_event_count p) (var_to_index d var - 1) = Some ?c"
    using v by (auto simp: at_index_def var_to_index_def nvar counted_def)
  have same_idx: "\<And>w. counted nvar p w \<Longrightarrow> w \<noteq> var \<Longrightarrow> nat (w - nvar - 1) \<noteq> ?i"
    using v by (auto simp: counted_def)
  show ?thesis
  proof (cases "?c = 0")
    case False
    let ?p' = "p \<lparr> node_event_count := (node_event_count p)[?i := (if ?c < 2 then ?c + 1 else ?c)] \<rparr>"
    have res: "priority_add d p var = Inr ?p'"
      using False rd by (simp add: priority_add_def plusplus_max2_def Let_def var_to_index_def nvar)
    have q: "queue ?p' = queue p" by (simp add: queue_def)
    have "prop_ok nvar ?p'"
      using ok False i unfolding prop_ok_def q
      by (auto simp: counted_def nth_list_update dest!: subsetD[OF set_update_subset_insert])
    then show ?thesis using res q by auto
  next
    case True
    then have nin: "var \<notin> set (queue p)"
      using ok by (auto simp: prop_ok_def)
    have bound: "priority_count p < int (length (priority_queue p))"
      using ok v nin by (rule queue_bound)
    have n0: "0 \<le> priority_count p" using ok by (simp add: prop_ok_def)
    let ?n = "nat (priority_count p)"
    let ?q1 = "(priority_queue p)[?n := var]"
    let ?p' = "sift_up (p \<lparr> node_event_count := (node_event_count p)[?i := 1],
                           priority_queue := ?q1,
                           priority_count := priority_count p + 1 \<rparr>) ?n"
    have res: "priority_add d p var = Inr ?p'"
      using True rd bound n0
      by (simp add: priority_add_def plusplus_max2_def Let_def var_to_index_def nvar)
    have n: "?n < length (priority_queue p)" using bound n0 by simp
    have "mset (queue ?p') = mset (take (Suc ?n) (sift_up_loop ?q1 ?n))"
      using n0 by (simp add: queue_def sift_up_def nat_add_distrib)
    also have "\<dots> = mset (take (Suc ?n) ?q1)"
      using n by (intro sift_up_loop_mset) simp_all
    also have "\<dots> = mset (take ?n ?q1 @ [?q1 ! ?n])"
      using n by (simp add: take_Suc_conv_app_nth)
    also have "\<dots> = add_mset var (mset (queue p))"
      using n by (simp add: queue_def)
    finally have q: "mset (queue ?p') = add_mset var (mset (queue p))" .
    then have set_q: "set (queue ?p') = insert var (set (queue p))"
      by (metis set_mset_add_mset_insert set_mset_mset)
    have dist: "distinct (queue ?p')"
    proof -
      have "mset (queue ?p') = mset (var # queue p)" using q by simp
      then have "distinct (queue ?p') = distinct (var # queue p)"
        by (rule mset_eq_imp_distinct_iff)
      then show ?thesis using nin ok by (simp add: prop_ok_def)
    qed
    have cnt: "node_event_count ?p' = (node_event_count p)[?i := 1]"
      and len: "length (priority_queue ?p') = length (priority_queue p)"
      and pc: "priority_count ?p' = priority_count p + 1"
      by (simp_all add: sift_up_def)
    have cp: "\<And>w. counted nvar ?p' w = counted nvar p w"
      by (simp add: counted_def sift_up_def)
    have "prop_ok nvar ?p'"
      unfolding prop_ok_def cp set_q cnt len pc
      using ok dist bound n0 i v
      by (auto simp: prop_ok_def nth_list_update dest!: subsetD[OF set_update_subset_insert])
    moreover have "\<exists>K. mset (queue ?p') = mset (queue p) + K \<and> set_mset K \<subseteq> {var}"
      using q by (intro exI[of _ "{#var#}"]) simp
    ultimately show ?thesis using res cnt by auto
  qed
qed

lemma add_fanouts_ok:
  assumes "prop_ok nvar p" and "\<forall>t \<in> set fs. counted nvar p t"
    and nvar: "input_variable_count (store (pog d)) = nvar"
  shows "\<exists>p'. add_fanouts d p fs = Inr p' \<and> prop_ok nvar p'
            \<and> length (node_event_count p') = length (node_event_count p)
            \<and> (\<exists>K. mset (queue p') = mset (queue p) + K \<and> set_mset K \<subseteq> set fs)"
  using assms(1,2)
proof (induction fs arbitrary: p)
  case Nil
  then show ?case by simp
next
  case (Cons f fs)
  from Cons.prems have f: "counted nvar p f" by simp
  from priority_add_ok [OF Cons.prems(1) f nvar] obtain p1 K1 where
    p1: "priority_add d p f = Inr p1" "prop_ok nvar p1"
      "length (node_event_count p1) = length (node_event_count p)"
      "mset (queue p1) = mset (queue p) + K1" "set_mset K1 \<subseteq> {f}"
    by blast
  have "\<forall>t \<in> set fs. counted nvar p1 t"
    using Cons.prems(2) p1(3) by (simp add: counted_def)
  from Cons.IH [OF p1(2) this] obtain p2 K2 where
    p2: "add_fanouts d p1 fs = Inr p2" "prop_ok nvar p2"
      "length (node_event_count p2) = length (node_event_count p1)"
      "mset (queue p2) = mset (queue p1) + K2" "set_mset K2 \<subseteq> set fs"
    by blast
  have "mset (queue p2) = mset (queue p) + (K1 + K2)"
    using p1(4) p2(4) by simp
  moreover have "set_mset (K1 + K2) \<subseteq> set (f # fs)"
    using p1(5) p2(5) by auto
  ultimately have "\<exists>K. mset (queue p2) = mset (queue p) + K \<and> set_mset K \<subseteq> set (f # fs)"
    by blast
  then show ?case using p1 p2 by (simp add: ebind_def)
qed

lemma priority_next_empty: "priority_count p = 0 \<Longrightarrow> priority_next p = Inr (- 1, p)"
  by (simp add: priority_next_def)

lemma priority_next_ok:
  assumes ok: "prop_ok nvar p" and ne: "priority_count p \<noteq> 0"
  shows "\<exists>var p'. priority_next p = Inr (var, p') \<and> var \<in> set (queue p)
            \<and> mset (queue p') = mset (queue p) - {#var#}
            \<and> node_event_count p' = node_event_count p \<and> prop_ok nvar p'"
proof -
  let ?q = "priority_queue p"
  let ?n = "nat (priority_count p)"
  let ?m = "?n - 1"
  let ?q1 = "?q[0 := ?q ! ?m]"
  let ?p1 = "p \<lparr> priority_queue := ?q1, priority_count := priority_count p - 1 \<rparr>"
  let ?p' = "(sift_down ?p1 0) \<lparr> prop_event_count := prop_event_count (sift_down ?p1 0) + 1 \<rparr>"
  have n: "0 < ?n" "?n \<le> length ?q" using ok ne by (auto simp: prop_ok_def)
  have res: "priority_next p = Inr (?q ! 0, ?p')"
    using ok ne by (simp add: priority_next_def prop_ok_def Let_def nat_diff_distrib)
  have tk: "take ?n ?q = take ?m ?q @ [?q ! ?m]"
    using n by (metis Suc_pred' diff_less less_le_trans take_Suc_conv_app_nth zero_less_one)
  have mem: "?q ! 0 \<in> set (queue p)"
    using n by (auto simp: queue_def in_set_conv_nth intro!: exI[of _ 0])
  have "queue ?p' = take ?m (sift_down_loop ?q1 ?m 0)"
    using n by (simp add: queue_def sift_down_def nat_diff_distrib)
  then have "mset (queue ?p') = mset (take ?m ?q1)"
    using n by (simp add: sift_down_loop_mset)
  also have "\<dots> = mset (take ?n ?q) - {#?q ! 0#}"
  proof (cases "?m = 0")
    case True
    then have "?n = 1" using n by simp
    then show ?thesis using n by (cases "priority_queue p") simp_all
  next
    case False
    then have m: "0 < length (take ?m ?q)" using n by simp
    have "mset (take ?m ?q1) = mset ((take ?m ?q)[0 := ?q ! ?m])"
      by (simp add: take_update_swap)
    also have "\<dots> = add_mset (?q ! ?m) (mset (take ?m ?q) - {#take ?m ?q ! 0#})"
      using m by (rule mset_update)
    also have "take ?m ?q ! 0 = ?q ! 0" using False by simp
    also have "add_mset (?q ! ?m) (mset (take ?m ?q) - {#?q ! 0#})
               = mset (take ?n ?q) - {#?q ! 0#}"
    proof -
      have "?q ! 0 \<in># mset (take ?m ?q)"
        using m False by (metis \<open>take ?m ?q ! 0 = ?q ! 0\<close> nth_mem set_mset_mset)
      then show ?thesis unfolding tk by simp
    qed
    finally show ?thesis .
  qed
  finally have q: "mset (queue ?p') = mset (queue p) - {#?q ! 0#}"
    by (simp add: queue_def)
  have cnt: "node_event_count ?p' = node_event_count p"
    and len: "length (priority_queue ?p') = length (priority_queue p)"
    and pc: "priority_count ?p' = priority_count p - 1"
    by (simp_all add: sift_down_def)
  have "mset (queue ?p') = mset (remove1 (?q ! 0) (queue p))" using q by simp
  then have dist: "distinct (queue ?p') = distinct (remove1 (?q ! 0) (queue p))"
    and st: "set (queue ?p') = set (remove1 (?q ! 0) (queue p))"
    by (rule mset_eq_imp_distinct_iff, rule mset_eq_setD)
  have cp: "\<And>w. counted nvar ?p' w = counted nvar p w"
    by (simp add: counted_def sift_down_def)
  have "prop_ok nvar ?p'"
    unfolding prop_ok_def cp dist st cnt len pc
    using ok ne by (auto simp: prop_ok_def)
  then show ?thesis using res mem q cnt by blast
qed

lemma fanouts_of_mem:
  "fanouts_of d lit = Some fs \<Longrightarrow> fs \<in> set (pos_fanouts d) \<union> set (neg_fanouts d)"
  by (auto simp: fanouts_of_def at_index_def Let_def split: if_splits)

lemma fanouts_ok_event_count [simp]:
  "fanouts_ok (d \<lparr> event_count := x \<rparr>) n depth = fanouts_ok d n depth"
  by (simp add: fanouts_ok_def)

lemma fanouts_of_event_count [simp]:
  "fanouts_of (d \<lparr> event_count := x \<rparr>) lit = fanouts_of d lit"
  by (simp add: fanouts_of_def Let_def)

lemma process_fanout_ok:
  assumes fo: "fanouts_ok d (length (node_event_count p)) depth"
    and ok: "prop_ok (input_variable_count (store (pog d))) p"
    and fs: "fanouts_of d lit = Some fs"
  shows "\<exists>p'. process_fanout d p lit = Inr p'
            \<and> prop_ok (input_variable_count (store (pog d))) p'
            \<and> length (node_event_count p') = length (node_event_count p)
            \<and> (\<exists>K. mset (queue p') = mset (queue p) + K \<and> set_mset K \<subseteq> set fs)"
proof -
  have "fs \<in> set (pos_fanouts d) \<union> set (neg_fanouts d)" using fs by (rule fanouts_of_mem)
  then have "\<forall>t \<in> set fs. counted (input_variable_count (store (pog d))) p t"
    using fo by (auto simp: fanouts_ok_def counted_def Let_def)
  from add_fanouts_ok [OF ok this refl] show ?thesis
    using fs by (simp add: process_fanout_def)
qed

lemma clause_fanouts_ok:
  assumes "fanouts_ok d (length (node_event_count p)) depth"
    and "prop_ok (input_variable_count (store (pog d))) p"
    and "\<forall>lit \<in> set lits. fanouts_of d (- lit) \<noteq> None"
  shows "\<exists>p'. clause_fanouts d p lits = Inr p'
            \<and> prop_ok (input_variable_count (store (pog d))) p'
            \<and> length (node_event_count p') = length (node_event_count p)"
  using assms
proof (induction lits arbitrary: p)
  case Nil
  then show ?case by simp
next
  case (Cons lit lits)
  from Cons.prems(3) obtain fs where fs: "fanouts_of d (- lit) = Some fs" by auto
  from process_fanout_ok [OF Cons.prems(1,2) fs] obtain p1 where
    p1: "process_fanout d p (- lit) = Inr p1"
      "prop_ok (input_variable_count (store (pog d))) p1"
      "length (node_event_count p1) = length (node_event_count p)"
    by blast
  have "fanouts_ok d (length (node_event_count p1)) depth" using Cons.prems(1) p1(3) by simp
  from Cons.IH [OF this p1(2)] Cons.prems(3) obtain p2 where
    "clause_fanouts d p1 lits = Inr p2"
      "prop_ok (input_variable_count (store (pog d))) p2"
      "length (node_event_count p2) = length (node_event_count p1)"
    by auto
  then show ?case using p1 by (simp add: ebind_def)
qed

lemma rup_event_ok:
  fixes depth :: "int \<Rightarrow> nat"
  assumes fo: "fanouts_ok d (length (node_event_count p)) depth"
    and ok: "prop_ok (input_variable_count (store (pog d))) p"
    and cv: "counted (input_variable_count (store (pog d))) p var"
    and pos: "0 < node_event_count p ! nat (var - input_variable_count (store (pog d)) - 1)"
    and nin: "var \<notin> set (queue p)"
  shows "\<exists>conflict ev p2.
            rup_event d p var = Inr (conflict, ev, d \<lparr> event_count := event_count d + 1 \<rparr>, p2)
          \<and> prop_ok (input_variable_count (store (pog d))) p2
          \<and> length (node_event_count p2) = length (node_event_count p)
          \<and> fst ev = var \<and> event_ok d ev
          \<and> (conflict \<longleftrightarrow> var = declared_root (pog d) \<and> fired ev)
          \<and> (\<exists>K. mset (queue p2) = mset (queue p) + K \<and> (\<forall>k \<in># K. depth k < depth var))"
proof -
  let ?nvar = "input_variable_count (store (pog d))"
  let ?n = "length (node_event_count p)"
  let ?i = "nat (var - ?nvar - 1)"
  let ?nd = "node_list (pog d) ! ?i"
  let ?e = "node_event_count p ! ?i"
  let ?d1 = "d \<lparr> event_count := event_count d + 1 \<rparr>"
  let ?p1 = "p \<lparr> node_event_count := (node_event_count p)[?i := 0] \<rparr>"
  let ?ev = "(node_id ?nd, ?e, propagate_threshold ?nd)"
  have i: "?i < ?n" and i0: "0 \<le> var - ?nvar - 1" and var: "var = ?nvar + 1 + int ?i"
    using cv by (auto simp: counted_def)
  have nv0: "0 \<le> ?nvar" and nl: "?n \<le> length (node_list (pog d))"
    and pf: "?nvar + int ?n \<le> int (length (pos_fanouts d))"
    using fo by (simp_all add: fanouts_ok_def Let_def)
  have nd: "node_type ?nd \<noteq> NODE_NONE" "node_id ?nd = var"
    using fo i var by (auto simp: fanouts_ok_def Let_def)
  have rd_nd: "at_index (node_list (pog d)) (var_to_index d var - 1) = Some ?nd"
    using i i0 nl by (auto simp: at_index_def var_to_index_def)
  have rd_e: "at_index (node_event_count p) (var_to_index d var - 1) = Some ?e"
    using i i0 by (auto simp: at_index_def var_to_index_def)
  have find: "node_find (pog d) var = Some ?nd"
    using i i0 nl by (auto simp: node_find_def node_index_def node_asize_def Let_def)
  have e2: "?e \<le> 2" using ok i by (simp add: prop_ok_def)
  have evok: "event_ok d ?ev"
    using find nd pos e2 by (simp add: event_ok_def propagate_threshold_def)
  have cp: "\<And>w. counted ?nvar ?p1 w = counted ?nvar p w" by (simp add: counted_def)
  have q1: "queue ?p1 = queue p" by (simp add: queue_def)
  have idx: "nat (v - ?nvar - 1) \<noteq> ?i" if "v \<in> set (queue p)" for v
  proof -
    have "?nvar < v" using ok that by (simp add: prop_ok_def counted_def)
    moreover have "v \<noteq> var" using nin that by blast
    ultimately show ?thesis using i0 by linarith
  qed
  have cnt_same: "(node_event_count p)[?i := 0] ! nat (v - ?nvar - 1)
                  = node_event_count p ! nat (v - ?nvar - 1)" if "v \<in> set (queue p)" for v
    using idx [OF that] by simp
  have b2: "\<forall>c \<in> set ((node_event_count p)[?i := 0]). c \<le> 2"
    using ok by (auto simp: prop_ok_def dest!: subsetD[OF set_update_subset_insert])
  have ok1: "prop_ok ?nvar ?p1"
    unfolding prop_ok_def cp q1
    using ok b2 cnt_same by (simp add: prop_ok_def)
  show ?thesis
  proof (cases "propagate_threshold ?nd \<le> int ?e")
    case False
    then have "rup_event d p var = Inr (False, ?ev, ?d1, ?p1)"
      using rd_nd rd_e nd by (simp add: rup_event_def Let_def var_to_index_def)
    moreover have "\<not> fired ?ev" using False by (simp add: fired_def)
    moreover have "\<exists>K. mset (queue ?p1) = mset (queue p) + K \<and> (\<forall>k \<in># K. depth k < depth var)"
      using q1 by (intro exI[of _ "{#}"]) simp
    ultimately show ?thesis using ok1 evok nd by auto
  next
    case True
    let ?fs = "pos_fanouts d ! nat (?nvar + int ?i)"
    have fs: "fanouts_of ?d1 (- node_id ?nd) = Some ?fs"
      using nd var nv0 pf i
      by (auto simp: fanouts_of_def at_index_def IABS_def Let_def)
    have fo1: "fanouts_ok ?d1 (length (node_event_count ?p1)) depth" using fo by simp
    have ok1': "prop_ok (input_variable_count (store (pog ?d1))) ?p1" using ok1 by simp
    from process_fanout_ok [OF fo1 ok1' fs] obtain p2 K where
      p2: "process_fanout ?d1 ?p1 (- node_id ?nd) = Inr p2" "prop_ok ?nvar p2"
        "length (node_event_count p2) = ?n"
        "mset (queue p2) = mset (queue p) + K" "set_mset K \<subseteq> set ?fs"
      using q1 by auto
    have res: "rup_event d p var = Inr (var = declared_root (pog d), ?ev, ?d1, p2)"
      using rd_nd rd_e nd True p2(1)
      by (simp add: rup_event_def Let_def var_to_index_def ebind_def)
    have "\<forall>t \<in> set ?fs. depth t < depth var"
      using fo i var by (auto simp: fanouts_ok_def Let_def)
    then have dec: "\<forall>k \<in># K. depth k < depth var" using p2(5) by auto
    have "fired ?ev" using True by (simp add: fired_def)
    then show ?thesis using res p2 evok nd dec by auto
  qed
qed

lemma event_ok_event_count [simp]:
  "event_ok (d \<lparr> event_count := x \<rparr>) ev = event_ok d ev"
  by (simp add: event_ok_def)

lemma rup_input_loop_ok:
  fixes depth :: "int \<Rightarrow> nat"
  assumes "fanouts_ok d (length (node_event_count p)) depth"
    and "prop_ok (input_variable_count (store (pog d))) p"
  shows "\<exists>conflict evs d' p'.
      rup_input_loop d p trace = Some (Inr (conflict, trace @ evs, d', p'))
    \<and> d' = d \<lparr> event_count := event_count d' \<rparr>
    \<and> prop_ok (input_variable_count (store (pog d))) p'
    \<and> length (node_event_count p') = length (node_event_count p)
    \<and> (\<forall>ev \<in> set evs. event_ok d ev)
    \<and> (conflict \<longleftrightarrow> (\<exists>ev \<in> set evs. fst ev = declared_root (pog d) \<and> fired ev))"
  using assms
proof (induction "image_mset depth (mset (queue p))" arbitrary: p d trace
       rule: wf_induct_rule [OF wf_mult [OF wf_less_than]])
  case 1
  let ?nvar = "input_variable_count (store (pog d))"
  let ?P = "\<lambda>conflict evs d' p'.
      rup_input_loop d p trace = Some (Inr (conflict, trace @ evs, d', p'))
    \<and> d' = d \<lparr> event_count := event_count d' \<rparr>
    \<and> prop_ok (input_variable_count (store (pog d))) p'
    \<and> length (node_event_count p') = length (node_event_count p)
    \<and> (\<forall>ev \<in> set evs. event_ok d ev)
    \<and> (conflict \<longleftrightarrow> (\<exists>ev \<in> set evs. fst ev = declared_root (pog d) \<and> fired ev))"
  note fo = "1.prems"(1) and ok = "1.prems"(2)
  show ?case
  proof (cases "priority_count p = 0")
    case True
    then have "rup_input_loop d p trace = Some (Inr (False, trace @ [], d, p))"
      by (subst rup_input_loop.simps) (simp add: priority_next_empty)
    then have "?P False [] d p" using ok by simp
    then show ?thesis by blast
  next
    case False
    from priority_next_ok [OF ok False] obtain var p1 where
      nx: "priority_next p = Inr (var, p1)" and mem: "var \<in> set (queue p)"
      and q1: "mset (queue p1) = mset (queue p) - {#var#}"
      and c1: "node_event_count p1 = node_event_count p" and ok1: "prop_ok ?nvar p1"
      by blast
    have cv: "counted ?nvar p1 var"
      and pos: "0 < node_event_count p1 ! nat (var - ?nvar - 1)"
      using ok mem c1 by (auto simp: prop_ok_def counted_def)
    have nv0: "0 \<le> ?nvar" using fo by (simp add: fanouts_ok_def Let_def)
    then have var0: "0 < var" using cv by (simp add: counted_def)
    have "distinct (queue p)" using ok by (simp add: prop_ok_def)
    then have "count (mset (queue p)) var = 1" using mem by (simp add: distinct_count_atmost_1)
    then have "count (mset (queue p1)) var = 0" using q1 by simp
    then have nin: "var \<notin> set (queue p1)" by (simp add: count_eq_zero_iff)
    have fo1: "fanouts_ok d (length (node_event_count p1)) depth" using fo c1 by simp
    let ?d1 = "d \<lparr> event_count := event_count d + 1 \<rparr>"
    from rup_event_ok [OF fo1 ok1 cv pos nin] obtain conflict ev p2 K where
      ev: "rup_event d p1 var = Inr (conflict, ev, ?d1, p2)"
      and ok2: "prop_ok ?nvar p2"
      and len2: "length (node_event_count p2) = length (node_event_count p1)"
      and ev1: "fst ev = var" and evok: "event_ok d ev"
      and cf: "conflict \<longleftrightarrow> var = declared_root (pog d) \<and> fired ev"
      and q2: "mset (queue p2) = mset (queue p1) + K" and dec: "\<forall>k \<in># K. depth k < depth var"
      by blast
    show ?thesis
    proof (cases conflict)
      case True
      then have "rup_input_loop d p trace = Some (Inr (True, trace @ [ev], ?d1, p2))"
        using nx ev var0 by (subst rup_input_loop.simps) simp
      moreover have "fst ev = declared_root (pog d) \<and> fired ev" using True cf ev1 by simp
      ultimately have "?P True [ev] ?d1 p2" using evok ok2 len2 c1 by auto
      then show ?thesis by blast
    next
      case False
      then have step: "rup_input_loop d p trace = rup_input_loop ?d1 p2 (trace @ [ev])"
        using nx ev var0 by (subst rup_input_loop.simps) simp
      let ?I = "image_mset depth (mset (queue p) - {#var#})"
      have "mset (queue p) = (mset (queue p) - {#var#}) + {#var#}" using mem by simp
      then have big: "image_mset depth (mset (queue p)) = ?I + {#depth var#}"
        by (metis image_mset_single image_mset_union)
      have small: "image_mset depth (mset (queue p2)) = ?I + image_mset depth K"
        using q2 q1 by simp
      have "(?I + image_mset depth K, ?I + {#depth var#}) \<in> mult less_than"
        using dec by (intro one_step_implies_mult) auto
      then have lt: "(image_mset depth (mset (queue p2)), image_mset depth (mset (queue p)))
                      \<in> mult less_than"
        using big small by simp
      have fo2: "fanouts_ok ?d1 (length (node_event_count p2)) depth"
        using fo c1 len2 by simp
      have ok2': "prop_ok (input_variable_count (store (pog ?d1))) p2" using ok2 by simp
      from "1.hyps" [OF lt fo2 ok2', of "trace @ [ev]"] obtain c evs d' p' where
        r: "rup_input_loop ?d1 p2 (trace @ [ev]) = Some (Inr (c, (trace @ [ev]) @ evs, d', p'))"
        and pg1: "d' = ?d1 \<lparr> event_count := event_count d' \<rparr>"
        and ok': "prop_ok ?nvar p'"
        and len': "length (node_event_count p') = length (node_event_count p2)"
        and evs: "\<forall>e \<in> set evs. event_ok d e"
        and cc: "c \<longleftrightarrow> (\<exists>e \<in> set evs. fst e = declared_root (pog d) \<and> fired e)"
        by (auto simp del: ex_simps)
      have pg: "d' = d \<lparr> event_count := event_count d' \<rparr>"
        by (subst pg1) simp
      have "\<not> (fst ev = declared_root (pog d) \<and> fired ev)" using False cf ev1 by simp
      then have cc': "c \<longleftrightarrow> (\<exists>e \<in> set (ev # evs). fst e = declared_root (pog d) \<and> fired e)"
        using cc by auto
      have "rup_input_loop d p trace = Some (Inr (c, trace @ (ev # evs), d', p'))"
        using step r by simp
      then have "?P c (ev # evs) d' p'" using pg ok' len' len2 c1 evs evok cc' by simp
      then show ?thesis by blast
    qed
  qed
qed

lemma prop_ok_reset: "prop_ok nvar p \<Longrightarrow> prop_ok nvar (reset_propagator p)"
  by (simp add: prop_ok_def reset_propagator_def queue_def)

lemma rup_event_rule:
  "case rup_event d p var of
     Inl e \<Rightarrow> True
   | Inr (conflict, (ident, ecount, threshold), d1, p2) \<Rightarrow>
       (let p1 = p \<lparr> node_event_count :=
                       (node_event_count p)[nat (var_to_index d var - 1) := 0] \<rparr>
        in if threshold \<le> int ecount
           then process_fanout d1 p1 (- ident) = Inr p2
                \<and> conflict = (var = declared_root (pog d))
           else p2 = p1 \<and> \<not> conflict)"
  by (auto simp: rup_event_def Let_def ebind_def split: option.splits sum.splits)

text \<open>
  The reverse-implication check on structures without a cycle.  A node taken from the
  queue fires (the fanouts of its negation receive an event, and \<open>conflict\<close> is set
  when the node is the declared root) exactly when the event count read from its
  saturating counter is at least the threshold; the threshold is the number of children
  for a sum node and 1 for a product or Skolem node, and the count read is 1 or 2.  The
  run returns: it succeeds exactly when the trace holds a firing of the declared root,
  and otherwise it fails with \<open>ImplicitDeletionFailed\<close> and the clause id.  The
  structures are those of a POG whose nodes have the ids just above the input
  variables and whose edges fall in \<open>depth\<close> (\<open>fanouts_ok\<close>), with a propagator as
  \<^verbatim>\<open>new_propagator\<close> or an earlier run leaves it (\<open>prop_ok\<close>); a successful run
  leaves them so again.  The node commands do not exclude every cycle; the last
  subsection has a proof file that they accept and on which the check does not return.
\<close>

lemma rup_run_input_root_fires:
  fixes depth :: "int \<Rightarrow> nat"
  assumes "fanouts_ok d (length (node_event_count p)) depth"
    and "prop_ok (input_variable_count (store (pog d))) p"
    and "\<forall>lit \<in> set lits. fanouts_of d (- lit) \<noteq> None"
  shows "(\<exists>p1 conflict trace d' p'.
            clause_fanouts d p lits = Inr p1
          \<and> rup_input_loop d p1 [] = Some (Inr (conflict, trace, d', p'))
          \<and> (\<forall>ev \<in> set trace. event_ok d ev)
          \<and> (conflict \<longleftrightarrow> root_fired d trace)
          \<and> fanouts_ok d' (length (node_event_count (reset_propagator p'))) depth
          \<and> prop_ok (input_variable_count (store (pog d'))) (reset_propagator p')
          \<and> rup_run_input d p tcid lits
              = Some (if conflict then Inr (d', reset_propagator p')
                      else Inl (ImplicitDeletionFailed tcid)))
       \<and> (\<forall>p0 var.
            case rup_event d p0 var of
              Inl e \<Rightarrow> True
            | Inr (conflict, (ident, ecount, threshold), d1, p2) \<Rightarrow>
                (let p1 = p0 \<lparr> node_event_count :=
                                 (node_event_count p0)[nat (var_to_index d var - 1) := 0] \<rparr>
                 in if threshold \<le> int ecount
                    then process_fanout d1 p1 (- ident) = Inr p2
                         \<and> conflict = (var = declared_root (pog d))
                    else p2 = p1 \<and> \<not> conflict))"
proof -
  from clause_fanouts_ok [OF assms] obtain p1 where
    p1: "clause_fanouts d p lits = Inr p1"
      "prop_ok (input_variable_count (store (pog d))) p1"
      "length (node_event_count p1) = length (node_event_count p)"
    by blast
  have "fanouts_ok d (length (node_event_count p1)) depth" using assms(1) p1(3) by simp
  from rup_input_loop_ok [OF this p1(2), of "[]"] obtain conflict trace d' p' where
    lp: "rup_input_loop d p1 [] = Some (Inr (conflict, trace, d', p'))"
    and evs: "\<forall>ev \<in> set trace. event_ok d ev"
    and cf: "conflict \<longleftrightarrow> root_fired d trace"
    and d': "d' = d \<lparr> event_count := event_count d' \<rparr>"
    and ok': "prop_ok (input_variable_count (store (pog d))) p'"
    and len': "length (node_event_count p') = length (node_event_count p1)"
    unfolding root_fired_def by auto
  have fo': "fanouts_ok d' (length (node_event_count (reset_propagator p'))) depth"
    using assms(1) len' p1(3) by (subst d') (simp add: reset_propagator_def)
  have ok'': "prop_ok (input_variable_count (store (pog d'))) (reset_propagator p')"
    using ok' by (subst d') (simp add: prop_ok_reset)
  have "rup_run_input d p tcid lits
          = Some (if conflict then Inr (d', reset_propagator p')
                  else Inl (ImplicitDeletionFailed tcid))"
    using p1(1) lp by (simp add: rup_run_input_def)
  with p1(1) lp evs cf fo' ok'' show ?thesis using rup_event_rule by blast
qed

lemma rup_run_input_root_fires_witness:
  "build_deletion_structures default_options sum_pog = Inr sum_deletion
   \<and> fanouts_ok sum_deletion 3 (\<lambda>v. nat (5 - v))
   \<and> prop_ok 2 (new_propagator sum_pog)
   \<and> (\<exists>p1 d' p'.
         clause_fanouts sum_deletion (new_propagator sum_pog) [1, 2] = Inr p1
       \<and> rup_input_loop sum_deletion p1 []
           = Some (Inr (True, [(3, 1, 1), (4, 1, 1), (5, 2, 2)], d', p'))
       \<and> rup_run_input sum_deletion (new_propagator sum_pog) 1 [1, 2]
           = Some (Inr (d', reset_propagator p')))
   \<and> rup_run_input sum_deletion (new_propagator sum_pog) 1 [1]
       = Some (Inl (ImplicitDeletionFailed 1))"
proof -
  let ?p = "new_propagator sum_pog"
  let ?p1 = "\<lparr> node_event_count = [1, 1, 0], priority_queue = [3, 4, 0], priority_count = 2,
               implicit_deletion_count = 0, prop_event_count = 0 \<rparr>"
  let ?p2 = "\<lparr> node_event_count = [0, 0, 0], priority_queue = [5, 5, 0], priority_count = 0,
               implicit_deletion_count = 0, prop_event_count = 3 \<rparr>"
  have nvar: "input_variable_count (store (pog sum_deletion)) = 2"
    by (simp add: sum_deletion_def sum_pog_def)
  have p: "?p = \<lparr> node_event_count = [0, 0, 0], priority_queue = [0, 0, 0],
                  priority_count = 0, implicit_deletion_count = 0, prop_event_count = 0 \<rparr>"
    by (simp add: new_propagator_def sum_pog_def numeral_3_eq_3)
  have build: "build_deletion_structures default_options sum_pog = Inr sum_deletion"
    by code_simp
  have fo: "fanouts_ok sum_deletion 3 (\<lambda>v. nat (5 - v))"
    by (simp add: fanouts_ok_def nvar Let_def numeral_3_eq_3 All_less_Suc)
      (simp add: sum_deletion_def sum_pog_def)
  have ok: "prop_ok 2 ?p"
    by (simp add: p prop_ok_def queue_def)
  have lits: "\<forall>lit \<in> set [1, 2 :: int]. fanouts_of sum_deletion (- lit) \<noteq> None"
    by (simp add: fanouts_of_def at_index_def IABS_def sum_deletion_def)
  have cf: "clause_fanouts sum_deletion ?p [1, 2] = Inr ?p1"
    by code_simp
  have lp: "rup_input_loop sum_deletion ?p1 []
              = Some (Inr (True, [(3, 1, 1), (4, 1, 1), (5, 2, 2)],
                           sum_deletion \<lparr> event_count := 3 \<rparr>, ?p2))"
    by code_simp
  have fo': "fanouts_ok sum_deletion (length (node_event_count ?p)) (\<lambda>v. nat (5 - v))"
    using fo by (simp add: p numeral_3_eq_3)
  have ok': "prop_ok (input_variable_count (store (pog sum_deletion))) ?p"
    using ok by (simp add: nvar)
  from rup_run_input_root_fires [OF fo' ok' lits, of 1, THEN conjunct1]
  obtain p1 conflict trace d' p' where
    r: "clause_fanouts sum_deletion ?p [1, 2] = Inr p1"
      "rup_input_loop sum_deletion p1 [] = Some (Inr (conflict, trace, d', p'))"
      "rup_run_input sum_deletion ?p 1 [1, 2]
         = Some (if conflict then Inr (d', reset_propagator p')
                 else Inl (ImplicitDeletionFailed 1))"
    by blast
  have p1: "p1 = ?p1" using r(1) cf by simp
  then have "conflict" and "trace = [(3, 1, 1), (4, 1, 1), (5, 2, 2)]"
    using r(2) lp by auto
  then have "clause_fanouts sum_deletion ?p [1, 2] = Inr p1
       \<and> rup_input_loop sum_deletion p1 []
           = Some (Inr (True, [(3, 1, 1), (4, 1, 1), (5, 2, 2)], d', p'))
       \<and> rup_run_input sum_deletion ?p 1 [1, 2] = Some (Inr (d', reset_propagator p'))"
    using r by simp
  moreover have "rup_run_input sum_deletion ?p 1 [1] = Some (Inl (ImplicitDeletionFailed 1))"
    by code_simp
  ultimately show ?thesis using build fo ok by blast
qed

text \<open>
  The same check on the state after \<^verbatim>\<open>r 2 / 2 p 2 1 0 / 4 a 2 0 1 2 0\<close>: the
  structures are those \<^verbatim>\<open>build_deletion_structures\<close> makes, and the input clause
  \<open>(1)\<close> is deleted after one event, the firing of the root.
\<close>

lemma rup_run_input_unit_example:
  "build_deletion_structures default_options pog_unit_state = Inr unit_deletion
   \<and> clause_locate (store pog_unit_state) \<lparr> bid = 0, pos = 0 \<rparr> = Some [1]
   \<and> rup_run_input unit_deletion (new_propagator pog_unit_state) 1 [1]
       = Some (Inr (unit_deletion \<lparr> event_count := 1 \<rparr>,
                    \<lparr> node_event_count = [0], priority_queue = [2], priority_count = 0,
                      implicit_deletion_count = 0, prop_event_count = 1 \<rparr>))"
  by code_simp

subsection \<open>Two proof files that the node commands accept\<close>

lemma cnf_unit_state_built:
  "store_clause (clause_init 1 1) 1 [1] CLAUSE_INPUT = Inr (store cnf_unit_state)"
  by code_simp

lemma self_child_accepted: "self_child_run = Some (Inr self_child_state)"
  by code_simp

lemma self_child_fanouts:
  "build_deletion_structures default_options self_child_state = Inr self_child_deletion"
  by code_simp

lemma self_child_queued:
  "clause_fanouts self_child_deletion (new_propagator self_child_state) [1]
     = Inr (self_child_propagator 0)"
  by code_simp

text \<open>
  Claim C6 on the proof file whose root has a child with a larger id.  Every command is
  accepted, the root clause is there and the only input clause has been deleted by the
  command \<^verbatim>\<open>d\<close>, so that nothing is left to check and the file is verified.
  \<^verbatim>\<open>ring_evaluate\<close> visits the ids from the first node id to the root in ascending
  order: it evaluates the root 2 only and reads the ring value of node 3, which is
  still NULL.  No count results, where the ring evaluation of this POG at weight one
  half, times \<open>2 ^ 1\<close>, is 1.
\<close>

theorem child_above_root_no_count:
  "(case child_above_run of
      Some (Inr st) \<Rightarrow>
        root_clause_added st \<and> \<not> declared_unsatisfiable st
        \<and> explicit_deletion_count st = input_clause_count (store st)
        \<and> declared_root st = 2
        \<and> map children (take 2 (node_list st)) = [[3], [1]]
        \<and> count_regular st = Inl MemoryFault
    | _ \<Rightarrow> False)"
  by code_simp


lemma sift_down_pair: "sift_down_loop [3, 3] (Suc 0) 0 = [3, 3]"
  by code_simp

lemma sift_up_pair: "sift_up_loop [3, 2] (Suc 0) = [2, 3]"
  by code_simp

lemma self_child_next:
  "priority_next (self_child_propagator j)
     = Inr (2, self_child_popped (j + 1))"
  by (simp add: priority_next_def self_child_propagator_def self_child_popped_def
      sift_down_def sift_down_pair Let_def)

lemma self_child_event:
  "rup_event (self_child_deletion \<lparr> event_count := k \<rparr>) (self_child_popped j) 2
     = Inr (False, (2, 1, 1), self_child_deletion \<lparr> event_count := k + 1 \<rparr>,
            self_child_propagator j)"
  by (simp add: rup_event_def var_to_index_def at_index_def self_child_deletion_def
      self_child_state_def propagate_threshold_def process_fanout_def fanouts_of_def IABS_def
      priority_add_def plusplus_max2_def sift_up_def sift_up_pair Let_def ebind_def
      self_child_propagator_def self_child_popped_def)

lemma self_child_loop_aux:
  "rup_input_loop d p trace = Some y \<Longrightarrow>
   \<forall>k j. \<not> (d = self_child_deletion \<lparr> event_count := k \<rparr> \<and> p = self_child_propagator j)"
proof (induct rule: rup_input_loop.raw_induct [rotated, consumes 1, case_names step])
  case (step approx d p trace y)
  show ?case
  proof (intro allI notI)
    fix k j
    assume "d = self_child_deletion \<lparr> event_count := k \<rparr> \<and> p = self_child_propagator j"
    with step(2) have "approx (self_child_deletion \<lparr> event_count := k + 1 \<rparr>)
                      (self_child_propagator (j + 1)) (trace @ [(2, 1, 1)]) = Some y"
      by (simp add: self_child_next self_child_event)
    from step(1) [OF this] show False by blast
  qed
qed

lemma self_child_loop:
  "rup_input_loop (self_child_deletion \<lparr> event_count := k \<rparr>) (self_child_propagator j) trace
     = None"
proof (cases "rup_input_loop (self_child_deletion \<lparr> event_count := k \<rparr>)
                (self_child_propagator j) trace")
  case None
  then show ?thesis .
next
  case (Some y)
  from self_child_loop_aux [OF this] show ?thesis by blast
qed

text \<open>
  Claim C2 on the proof file with a node that is its own child.  Every command is
  accepted, the root clause is there and the input clause \<open>(1)\<close> is still to be
  deleted; in its reverse-implication check node 2 fires, puts itself back in the heap
  and is taken again before the root 3: the check does not return, so it neither
  succeeds nor fails with \<open>ImplicitDeletionFailed\<close>.
\<close>

theorem rup_run_input_self_child_never_returns:
  "(case self_child_run of
      Some (Inr st) \<Rightarrow>
        root_clause_added st
        \<and> explicit_deletion_count st < input_clause_count (store st)
        \<and> map children (take 2 (node_list st)) = [[1, 2], [1]]
        \<and> clause_type (store st) \<lparr> bid = 0, pos = 0 \<rparr> = CLAUSE_INPUT
        \<and> clause_locate (store st) \<lparr> bid = 0, pos = 0 \<rparr> = Some [1]
        \<and> (case build_deletion_structures default_options st of
              Inr d \<Rightarrow>
                pos_fanouts d = [[2, 3], [2], []]
                \<and> rup_run_input d (new_propagator st) 1 [1] = None
            | Inl e \<Rightarrow> False)
    | _ \<Rightarrow> False)"
proof -
  have d0: "self_child_deletion = self_child_deletion \<lparr> event_count := 0 \<rparr>"
    by (simp add: self_child_deletion_def)
  have "rup_input_loop self_child_deletion (self_child_propagator 0) [] = None"
    by (subst d0) (rule self_child_loop)
  then have run: "rup_run_input self_child_deletion (new_propagator self_child_state) 1 [1] = None"
    unfolding rup_run_input_def self_child_queued by simp
  have st: "root_clause_added self_child_state"
    "explicit_deletion_count self_child_state < input_clause_count (store self_child_state)"
    "map children (take 2 (node_list self_child_state)) = [[1, 2], [1]]"
    "clause_type (store self_child_state) \<lparr> bid = 0, pos = 0 \<rparr> = CLAUSE_INPUT"
    "clause_locate (store self_child_state) \<lparr> bid = 0, pos = 0 \<rparr> = Some [1]"
    by code_simp+
  have "pos_fanouts self_child_deletion = [[2, 3], [2], []]"
    by (simp add: self_child_deletion_def)
  with run st show ?thesis
    by (simp add: self_child_accepted self_child_fanouts)
qed

end
